theory Spec2Isabelle
  imports Main "HOL-Library.Word" "HOL-Library.Code_Target_Nat"
begin

section \<open>Data model of simplegrep.c\<close>

text \<open>
  A byte of the input buffer or of the pattern is a C \<open>char\<close>. The pattern is a C string
  taken from the command line: it is represented by the list of its bytes before the
  terminating NUL, so that \<open>strlen\<close> is the length of that list and reading the index
  \<open>strlen\<close> itself yields the terminator.
\<close>

type_synonym byte = "8 word"

text \<open>
  Undefined behaviour of the C program is made explicit as a fault value: a read of
  \<open>inputData\<close> (or of the pattern) past its last byte, and a write to the 16-element
  array \<open>tmpHint\<close> at an index of 16 or more.
\<close>

datatype fault = OutOfBoundsRead nat | LaneOutOfBounds nat

text \<open>The arguments of one call of the match callback.\<close>

record match_event =
  ev_id :: nat
  ev_from :: nat
  ev_to :: nat
  ev_flags :: nat
  ev_ctx :: "byte list"

text \<open>
  The global state: \<open>static int gsHint\<close>, a 32-bit \<open>int\<close> (read through \<open>sint\<close>, with
  the increment wrapping), and a log of the callback's invocations in the order in which
  they happen. The log is not a variable of the program; it records what the callback was
  called with.
\<close>

record scan_state =
  gsHint :: "32 word"
  calls :: "match_event list"

definition eventHandler ::
  "nat \<Rightarrow> nat \<Rightarrow> nat \<Rightarrow> nat \<Rightarrow> byte list \<Rightarrow> scan_state \<Rightarrow> int \<times> scan_state" where
  "eventHandler ident from_off to_off flags ctx s =
     (0, s\<lparr>gsHint := gsHint s + 1,
           calls := calls s @ [\<lparr>ev_id = ident, ev_from = from_off, ev_to = to_off,
                                ev_flags = flags, ev_ctx = ctx\<rparr>]\<rparr>)"

subsection \<open>Memory reads and \<open>size_t\<close> arithmetic\<close>

definition buf_read :: "byte list \<Rightarrow> nat \<Rightarrow> fault + byte" where
  "buf_read inputData k =
     (if k < length inputData then Inr (inputData ! k) else Inl (OutOfBoundsRead k))"

definition str_read :: "byte list \<Rightarrow> nat \<Rightarrow> fault + byte" where
  "str_read pattern k =
     (if k < length pattern then Inr (pattern ! k)
      else if k = length pattern then Inr 0
      else Inl (OutOfBoundsRead k))"

definition strlen :: "byte list \<Rightarrow> nat" where
  "strlen pattern = length pattern"

text \<open>
  \<open>length - (plen - 1)\<close>, computed in the 64-bit unsigned type \<open>size_t\<close>: both
  subtractions wrap around.
\<close>

definition scan_bound :: "nat \<Rightarrow> nat \<Rightarrow> nat" where
  "scan_bound len plen = unat ((word_of_nat len :: 64 word) - (word_of_nat plen - 1))"

text \<open>\<open>i + j\<close> in \<open>size_t\<close>.\<close>

definition size_add :: "nat \<Rightarrow> nat \<Rightarrow> nat" where
  "size_add i j = (i + j) mod 2 ^ 64"

section \<open>The scan strategies\<close>

subsection \<open>\<open>memScanMethod\<close>\<close>

function memScan_loop ::
  "byte list \<Rightarrow> nat \<Rightarrow> byte list \<Rightarrow> nat \<Rightarrow> scan_state \<Rightarrow> fault + scan_state" where
  "memScan_loop inputData len pattern i s =
     (if i < len then
        (case str_read pattern 0 of
           Inl e \<Rightarrow> Inl e
         | Inr p0 \<Rightarrow>
            (case buf_read inputData i of
               Inl e \<Rightarrow> Inl e
             | Inr c \<Rightarrow>
                 if p0 = c
                 then memScan_loop inputData len pattern (i + 1)
                        (snd (eventHandler 0 0 i 0 pattern s))
                 else memScan_loop inputData len pattern (i + 1) s))
      else Inr s)"
  by pat_completeness auto
termination
  by (relation "measure (\<lambda>(inputData, len, pattern, i, s). len - i)") auto

declare memScan_loop.simps [simp del]

definition memScanMethod ::
  "byte list \<Rightarrow> nat \<Rightarrow> byte list \<Rightarrow> scan_state \<Rightarrow> fault + (int \<times> scan_state)" where
  "memScanMethod inputData len pattern s =
     (case memScan_loop inputData len pattern 0 s of
        Inl e \<Rightarrow> Inl e
      | Inr s' \<Rightarrow> Inr (0, s'))"

subsection \<open>\<open>rookieScanMethod\<close>\<close>

function rookie_inner ::
  "byte list \<Rightarrow> byte list \<Rightarrow> nat \<Rightarrow> nat \<Rightarrow> nat \<Rightarrow> scan_state \<Rightarrow> fault + scan_state" where
  "rookie_inner inputData pattern plen i j s =
     (if j < plen then
        (case str_read pattern j of
           Inl e \<Rightarrow> Inl e
         | Inr p \<Rightarrow>
            (case buf_read inputData (size_add i j) of
               Inl e \<Rightarrow> Inl e
             | Inr c \<Rightarrow>
                 if p \<noteq> c then Inr s
                 else if j = plen - 1
                 then rookie_inner inputData pattern plen i (j + 1)
                        (snd (eventHandler 0 0 i 0 pattern s))
                 else rookie_inner inputData pattern plen i (j + 1) s))
      else Inr s)"
  by pat_completeness auto
termination
  by (relation "measure (\<lambda>(inputData, pattern, plen, i, j, s). plen - j)") auto

declare rookie_inner.simps [simp del]

function rookie_outer ::
  "byte list \<Rightarrow> byte list \<Rightarrow> nat \<Rightarrow> nat \<Rightarrow> nat \<Rightarrow> scan_state \<Rightarrow> fault + scan_state" where
  "rookie_outer inputData pattern plen bound i s =
     (if i < bound then
        (case rookie_inner inputData pattern plen i 0 s of
           Inl e \<Rightarrow> Inl e
         | Inr s' \<Rightarrow> rookie_outer inputData pattern plen bound (i + 1) s')
      else Inr s)"
  by pat_completeness auto
termination
  by (relation "measure (\<lambda>(inputData, pattern, plen, bound, i, s). bound - i)") auto

declare rookie_outer.simps [simp del]

definition rookieScanMethod ::
  "byte list \<Rightarrow> nat \<Rightarrow> byte list \<Rightarrow> scan_state \<Rightarrow> fault + (int \<times> scan_state)" where
  "rookieScanMethod inputData len pattern s =
     (let plen = strlen pattern in
      case rookie_outer inputData pattern plen (scan_bound len plen) 0 (s\<lparr>gsHint := 0\<rparr>) of
        Inl e \<Rightarrow> Inl e
      | Inr s' \<Rightarrow> Inr (0, s'))"

subsection \<open>\<open>myBMScanMethod\<close>\<close>

text \<open>
  The local array \<open>char tmpHint[16]\<close>, together with a log of the indices at which it
  was incremented. \<open>tmpHint[j]++\<close> on a \<open>char\<close> wraps modulo 256.
\<close>

record bm_frame =
  tmpHint :: "byte list"
  lane_writes :: "nat list"

definition lane_inc :: "nat \<Rightarrow> bm_frame \<Rightarrow> fault + bm_frame" where
  "lane_inc j fr =
     (if j < 16
      then Inr (fr\<lparr>tmpHint := (tmpHint fr)[j := tmpHint fr ! j + 1],
                   lane_writes := lane_writes fr @ [j]\<rparr>)
      else Inl (LaneOutOfBounds j))"

function myBM_inner ::
  "byte list \<Rightarrow> byte list \<Rightarrow> nat \<Rightarrow> nat \<Rightarrow> nat \<Rightarrow> bm_frame \<Rightarrow> fault + bm_frame" where
  "myBM_inner inputData pattern plen i j fr =
     (if j < plen then
        (case str_read pattern j of
           Inl e \<Rightarrow> Inl e
         | Inr p \<Rightarrow>
            (case buf_read inputData (size_add i j) of
               Inl e \<Rightarrow> Inl e
             | Inr c \<Rightarrow>
                 if p \<noteq> c then Inr fr
                 else if j = plen - 1
                 then (case lane_inc j fr of
                         Inl e \<Rightarrow> Inl e
                       | Inr fr' \<Rightarrow> myBM_inner inputData pattern plen i (j + 1) fr')
                 else myBM_inner inputData pattern plen i (j + 1) fr))
      else Inr fr)"
  by pat_completeness auto
termination
  by (relation "measure (\<lambda>(inputData, pattern, plen, i, j, fr). plen - j)") auto

declare myBM_inner.simps [simp del]

function myBM_outer ::
  "byte list \<Rightarrow> byte list \<Rightarrow> nat \<Rightarrow> nat \<Rightarrow> nat \<Rightarrow> bm_frame \<Rightarrow> fault + bm_frame" where
  "myBM_outer inputData pattern plen bound i fr =
     (if i < bound then
        (case myBM_inner inputData pattern plen i 0 fr of
           Inl e \<Rightarrow> Inl e
         | Inr fr' \<Rightarrow> myBM_outer inputData pattern plen bound (i + 1) fr')
      else Inr fr)"
  by pat_completeness auto
termination
  by (relation "measure (\<lambda>(inputData, pattern, plen, bound, i, fr). bound - i)") auto

declare myBM_outer.simps [simp del]

text \<open>
  The reduction loop \<open>gsHint += tmpHint[j]\<close> for \<open>j\<close> from 0 to 15. Each lane is a
  \<open>char\<close>, signed on the x86 targets of the program, and is sign-extended to \<open>int\<close>
  before the addition.
\<close>

definition myBM_reduce :: "byte list \<Rightarrow> 32 word \<Rightarrow> 32 word" where
  "myBM_reduce lanes g = fold (\<lambda>j acc. acc + scast (lanes ! j)) [0..<16] g"

definition myBM_frame0 :: bm_frame where
  "myBM_frame0 = \<lparr>tmpHint = replicate 16 0, lane_writes = []\<rparr>"

definition myBMScanMethod ::
  "byte list \<Rightarrow> nat \<Rightarrow> byte list \<Rightarrow> scan_state \<Rightarrow> fault + (int \<times> scan_state)" where
  "myBMScanMethod inputData len pattern s =
     (let plen = strlen pattern in
      case myBM_outer inputData pattern plen (scan_bound len plen) 0 myBM_frame0 of
        Inl e \<Rightarrow> Inl e
      | Inr fr \<Rightarrow> Inr (0, s\<lparr>gsHint := myBM_reduce (tmpHint fr) (gsHint s)\<rparr>))"

subsection \<open>\<open>paraScanMethod\<close>\<close>

definition paraScanMethod ::
  "byte list \<Rightarrow> nat \<Rightarrow> byte list \<Rightarrow> scan_state \<Rightarrow> fault + (int \<times> scan_state)" where
  "paraScanMethod inputData len pattern s = Inr (0, s)"

subsection \<open>\<open>hyperScanMethod\<close>\<close>

text \<open>
  The Hyperscan library is not part of the sources, so the engine is a parameter: what
  \<open>hs_compile\<close> answers for a pattern (an error message or a database), whether
  \<open>hs_alloc_scratch\<close> succeeds, and which matches \<open>hs_scan\<close> finds in a buffer and
  what it returns after raising them. \<open>hs_scan\<close> calls the handler once for each match,
  in order, and stops with \<open>HS_SCAN_TERMINATED\<close> as soon as the handler returns a
  non-zero value.
\<close>

type_synonym hs_match = "nat \<times> nat \<times> nat \<times> nat"

record 'db hs_engine =
  hs_compile :: "byte list \<Rightarrow> string + 'db"
  hs_alloc_scratch :: "'db \<Rightarrow> bool"
  hs_scan_matches :: "'db \<Rightarrow> byte list \<Rightarrow> nat \<Rightarrow> hs_match list"
  hs_scan_result :: "'db \<Rightarrow> byte list \<Rightarrow> nat \<Rightarrow> int"

definition HS_SUCCESS :: int where
  "HS_SUCCESS = 0"

definition HS_SCAN_TERMINATED :: int where
  "HS_SCAN_TERMINATED = - 3"

fun hs_scan_events :: "hs_match list \<Rightarrow> byte list \<Rightarrow> int \<Rightarrow> scan_state \<Rightarrow> int \<times> scan_state" where
  "hs_scan_events [] ctx r s = (r, s)"
| "hs_scan_events ((ident, from_off, to_off, flags) # ms) ctx r s =
     (case eventHandler ident from_off to_off flags ctx s of
        (rc, s') \<Rightarrow>
          if rc \<noteq> 0 then (HS_SCAN_TERMINATED, s') else hs_scan_events ms ctx r s')"

definition hs_scan ::
  "'db hs_engine \<Rightarrow> 'db \<Rightarrow> byte list \<Rightarrow> nat \<Rightarrow> byte list \<Rightarrow> scan_state \<Rightarrow> int \<times> scan_state" where
  "hs_scan eng database inputData len ctx s =
     hs_scan_events (hs_scan_matches eng database inputData len) ctx
       (hs_scan_result eng database inputData len) s"

text \<open>
  When the scratch space cannot be allocated the function jumps to \<open>l_freedb\<close> and
  returns \<open>ret\<close>, which is still 0 there.
\<close>

definition hyperScanMethod ::
  "'db hs_engine \<Rightarrow> byte list \<Rightarrow> nat \<Rightarrow> byte list \<Rightarrow> scan_state \<Rightarrow> fault + (int \<times> scan_state)" where
  "hyperScanMethod eng inputData len pattern s =
     (case hs_compile eng pattern of
        Inl msg \<Rightarrow> Inr (- 1, s)
      | Inr database \<Rightarrow>
          if \<not> hs_alloc_scratch eng database then Inr (0, s)
          else Inr (hs_scan eng database inputData len pattern s))"

section \<open>The harness\<close>

type_synonym ScanFun =
  "byte list \<Rightarrow> nat \<Rightarrow> byte list \<Rightarrow> scan_state \<Rightarrow> fault + (int \<times> scan_state)"

type_synonym ScanTestItem = "string \<times> ScanFun"

definition testFuncArr :: "'db hs_engine \<Rightarrow> ScanTestItem list" where
  "testFuncArr eng =
     [(''allMemScan'', memScanMethod),
      (''hyperScan'', hyperScanMethod eng),
      (''rookieScan'', rookieScanMethod),
      (''myBMScanMethod'', myBMScanMethod),
      (''myScan'', paraScanMethod)]"

text \<open>
  One line of the report: the name, the status and the hit count, which is \<open>gsHint\<close>
  printed with \<open>%d\<close>. The elapsed time is not modelled.
\<close>

record report_line =
  rl_name :: string
  rl_status :: string
  rl_hit :: int

text \<open>
  The loop of \<open>main\<close> over \<open>testFuncArr\<close>. The value returned by \<open>testFun\<close> is
  dropped by the call statement, and the status is computed from \<open>ret\<close>.
\<close>

fun main_loop ::
  "ScanTestItem list \<Rightarrow> int \<Rightarrow> byte list \<Rightarrow> nat \<Rightarrow> byte list \<Rightarrow> scan_state \<Rightarrow>
     fault + (report_line list \<times> scan_state)" where
  "main_loop [] ret inputData len pattern s = Inr ([], s)"
| "main_loop ((testName, testFun) # rest) ret inputData len pattern s =
     (case testFun inputData len pattern (s\<lparr>gsHint := 0\<rparr>) of
        Inl e \<Rightarrow> Inl e
      | Inr (r, s') \<Rightarrow>
          (case main_loop rest ret inputData len pattern s' of
             Inl e \<Rightarrow> Inl e
           | Inr (lines, s'') \<Rightarrow>
               Inr (\<lparr>rl_name = testName,
                      rl_status = (if ret = HS_SUCCESS then ''DONE'' else ''ERROR''),
                      rl_hit = sint (gsHint s')\<rparr> # lines, s'')))"

text \<open>
  The input file as \<open>main\<close> sees it: whether \<open>access\<close> finds it and may read it, and
  its bytes (\<open>None\<close> when opening, seeking, allocating or reading fails).
\<close>

record input_file =
  file_exists :: bool
  file_readable :: bool
  file_bytes :: "byte list option"

definition UINT_MAX :: nat where
  "UINT_MAX = 2 ^ 32 - 1"

definition readInputData :: "byte list option \<Rightarrow> (byte list \<times> nat) option" where
  "readInputData bytes =
     (case bytes of
        None \<Rightarrow> None
      | Some d \<Rightarrow>
          if length d > UINT_MAX then Some (take UINT_MAX d, UINT_MAX)
          else if length d = 0 then None
          else Some (d, length d))"

definition init_state :: scan_state where
  "init_state = \<lparr>gsHint = 0, calls = []\<rparr>"

text \<open>\<open>main\<close> returns its exit code and the report lines it printed.\<close>

definition main ::
  "'db hs_engine \<Rightarrow> byte list list \<Rightarrow> input_file \<Rightarrow> fault + (int \<times> report_line list)" where
  "main eng argv f =
     (if length argv \<noteq> 3 then Inr (- 1, [])
      else
        let ret = 0; pattern = argv ! 1 in
        if \<not> file_exists f then Inr (- 1, [])
        else if \<not> file_readable f then Inr (- 1, [])
        else
          (case readInputData (file_bytes f) of
             None \<Rightarrow> Inr (- 1, [])
           | Some (inputData, len) \<Rightarrow>
               (case main_loop (testFuncArr eng) ret inputData len pattern init_state of
                  Inl e \<Rightarrow> Inl e
                | Inr (lines, s') \<Rightarrow> Inr (ret, lines))))"

section \<open>Vocabulary of the properties\<close>

text \<open>The event that the loops of this file hand to the callback for the position \<open>i\<close>.\<close>

definition hit_event :: "byte list \<Rightarrow> nat \<Rightarrow> match_event" where
  "hit_event pattern i = \<lparr>ev_id = 0, ev_from = 0, ev_to = i, ev_flags = 0, ev_ctx = pattern\<rparr>"

text \<open>The state after the callback has been called once for each position of a list.\<close>

definition report_hits :: "byte list \<Rightarrow> nat list \<Rightarrow> scan_state \<Rightarrow> scan_state" where
  "report_hits pattern hs s =
     s\<lparr>gsHint := gsHint s + word_of_nat (length hs), calls := calls s @ map (hit_event pattern) hs\<rparr>"

text \<open>The pattern occurs in the buffer at the start offset \<open>i\<close>.\<close>

definition occurs_at :: "byte list \<Rightarrow> byte list \<Rightarrow> nat \<Rightarrow> bool" where
  "occurs_at inputData pattern i = (take (length pattern) (drop i inputData) = pattern)"

text \<open>The start offsets of all occurrences, in increasing order.\<close>

definition match_offsets :: "byte list \<Rightarrow> byte list \<Rightarrow> nat list" where
  "match_offsets inputData pattern =
     filter (occurs_at inputData pattern) [0..<length inputData + 1 - length pattern]"

text \<open>\<open>pattern[0]\<close>: the first byte, or the terminator of the empty string.\<close>

definition first_byte :: "byte list \<Rightarrow> byte" where
  "first_byte pattern = (case pattern of [] \<Rightarrow> 0 | c # cs \<Rightarrow> c)"

text \<open>The callback invocations logged by a run (none when the run faults).\<close>

definition delivered :: "fault + (int \<times> scan_state) \<Rightarrow> match_event list" where
  "delivered r = (case r of Inl e \<Rightarrow> [] | Inr (rc, s) \<Rightarrow> calls s)"

text \<open>
  The frame after \<open>n\<close> increments of the lane \<open>k\<close> of \<open>tmpHint\<close>.
\<close>

definition lane_add :: "nat \<Rightarrow> nat \<Rightarrow> bm_frame \<Rightarrow> bm_frame" where
  "lane_add k n fr =
     fr\<lparr>tmpHint := (tmpHint fr)[k := tmpHint fr ! k + word_of_nat n],
        lane_writes := lane_writes fr @ replicate n k\<rparr>"

text \<open>
  The hit count that the harness prints after a run, \<open>gsHint\<close> read as an \<open>int\<close>;
  a run that faults has none.
\<close>

definition hit_count :: "fault + (int \<times> scan_state) \<Rightarrow> int option" where
  "hit_count r = (case r of Inl e \<Rightarrow> None | Inr (rc, s) \<Rightarrow> Some (sint (gsHint s)))"

text \<open>
  The effect of a loop on the state, separated from the state: either a fault, or the list
  of positions for which the callback is called.
\<close>

definition replay :: "byte list \<Rightarrow> fault + nat list \<Rightarrow> scan_state \<Rightarrow> fault + scan_state" where
  "replay pattern r s = (case r of Inl e \<Rightarrow> Inl e | Inr hs \<Rightarrow> Inr (report_hits pattern hs s))"

text \<open>The report lines of a run of the harness loop (none when the run faults).\<close>

definition report_of :: "fault + (report_line list \<times> scan_state) \<Rightarrow> report_line list" where
  "report_of r = (case r of Inl e \<Rightarrow> [] | Inr (lines, s) \<Rightarrow> lines)"

text \<open>An engine whose \<open>hs_compile\<close> rejects every pattern.\<close>

definition rejecting_engine :: "unit hs_engine" where
  "rejecting_engine =
     \<lparr>hs_compile = (\<lambda>pattern. Inl ''compile error''),
      hs_alloc_scratch = (\<lambda>database. True),
      hs_scan_matches = (\<lambda>database inputData len. []),
      hs_scan_result = (\<lambda>database inputData len. 0)\<rparr>"

text \<open>An engine that compiles every pattern and raises a fixed list of matches.\<close>

definition fixed_engine :: "hs_match list \<Rightarrow> unit hs_engine" where
  "fixed_engine ms =
     \<lparr>hs_compile = (\<lambda>pattern. Inr ()),
      hs_alloc_scratch = (\<lambda>database. True),
      hs_scan_matches = (\<lambda>database inputData len. ms),
      hs_scan_result = (\<lambda>database inputData len. 0)\<rparr>"

section \<open>Auxiliary facts\<close>

lemma report_hits_Nil [simp]: "report_hits pattern [] s = s"
  by (simp add: report_hits_def)

lemma report_hits_Cons:
  "report_hits pattern (h # hs) s = report_hits pattern hs (snd (eventHandler 0 0 h 0 pattern s))"
  by (simp add: report_hits_def eventHandler_def hit_event_def)

lemma report_hits_single:
  "snd (eventHandler 0 0 h 0 pattern s) = report_hits pattern [h] s"
  by (simp add: report_hits_def eventHandler_def hit_event_def)

lemma size_add_small: "i + j < 2 ^ 64 \<Longrightarrow> size_add i j = i + j"
  by (simp add: size_add_def)

lemma scan_bound_fits:
  assumes "1 \<le> plen" "plen \<le> len" "len < 2 ^ 64"
  shows "scan_bound len plen = len + 1 - plen"
proof -
  have "(word_of_nat len :: 64 word) - (word_of_nat plen - 1) = word_of_nat (len + 1 - plen)"
    using assms by (simp add: of_nat_diff)
  moreover have "unat (word_of_nat (len + 1 - plen) :: 64 word) = (len + 1 - plen) mod 2 ^ 64"
    unfolding unat_of_nat by simp
  moreover have "(len + 1 - plen) mod 2 ^ 64 = len + 1 - plen"
    using assms by (intro mod_less) arith
  ultimately show ?thesis by (simp only: scan_bound_def)
qed

lemma rookie_inner_eq:
  assumes "plen = length pattern" "i + plen \<le> length inputData" "length inputData < 2 ^ 64"
    and "j \<le> plen" "take j (drop i inputData) = take j pattern"
  shows "rookie_inner inputData pattern plen i j s =
     Inr (if j < plen \<and> occurs_at inputData pattern i then report_hits pattern [i] s else s)"
  using assms
proof (induction inputData pattern plen i j s rule: rookie_inner.induct)
  case (1 inputData pattern plen i j s)
  show ?case
  proof (cases "j < plen")
    case False
    then show ?thesis by (simp add: rookie_inner.simps [of inputData pattern plen i j s])
  next
    case True
    have sr: "str_read pattern j = Inr (pattern ! j)"
      using True "1.prems" by (simp add: str_read_def)
    have sa: "size_add i j = i + j"
      using True "1.prems" by (intro size_add_small) simp
    have br: "buf_read inputData (size_add i j) = Inr (inputData ! (i + j))"
      using True "1.prems" by (simp add: sa buf_read_def)
    have nth: "take plen (drop i inputData) ! j = inputData ! (i + j)"
      using True "1.prems" by simp
    show ?thesis
    proof (cases "pattern ! j = inputData ! (i + j)")
      case False
      have "\<not> occurs_at inputData pattern i"
      proof
        assume "occurs_at inputData pattern i"
        then have "take plen (drop i inputData) ! j = pattern ! j"
          using "1.prems"(1) by (simp add: occurs_at_def)
        with nth False show False by simp
      qed
      with True False sr br show ?thesis
        by (simp add: rookie_inner.simps [of inputData pattern plen i j s])
    next
      case eq: True
      have pre: "take (j + 1) (drop i inputData) = take (j + 1) pattern"
        using True "1.prems" eq by (simp add: take_Suc_conv_app_nth)
      show ?thesis
      proof (cases "j = plen - 1")
        case last: True
        then have jp: "j + 1 = plen" using True by simp
        have occ: "occurs_at inputData pattern i"
          using pre jp "1.prems"(1) by (simp add: occurs_at_def)
        have "rookie_inner inputData pattern plen i plen (snd (eventHandler 0 0 i 0 pattern s))
              = Inr (snd (eventHandler 0 0 i 0 pattern s))"
          by (simp add: rookie_inner.simps [of inputData pattern plen i plen])
        then have "rookie_inner inputData pattern plen i (j + 1) (snd (eventHandler 0 0 i 0 pattern s))
              = Inr (snd (eventHandler 0 0 i 0 pattern s))"
          using jp by simp
        moreover have "rookie_inner inputData pattern plen i j s =
            rookie_inner inputData pattern plen i (j + 1) (snd (eventHandler 0 0 i 0 pattern s))"
          using True sr br eq last by (subst rookie_inner.simps) simp
        ultimately show ?thesis
          using True occ by (simp add: report_hits_single)
      next
        case notlast: False
        then have lt: "j + 1 < plen" using True by simp
        have "rookie_inner inputData pattern plen i (j + 1) s =
            Inr (if j + 1 < plen \<and> occurs_at inputData pattern i then report_hits pattern [i] s else s)"
          using "1.IH"(2) [OF True sr br _ notlast "1.prems"(1,2,3) _ pre] eq lt by simp
        with True sr br eq notlast lt show ?thesis
          by (simp add: rookie_inner.simps [of inputData pattern plen i j s])
      qed
    qed
  qed
qed

lemma report_hits_append:
  "report_hits pattern (xs @ ys) s = report_hits pattern ys (report_hits pattern xs s)"
  by (simp add: report_hits_def)

lemma rookie_outer_eq:
  assumes "plen = length pattern" "1 \<le> plen" "bound + plen \<le> length inputData + 1"
    "length inputData < 2 ^ 64"
  shows "rookie_outer inputData pattern plen bound i s =
     Inr (report_hits pattern (filter (occurs_at inputData pattern) [i..<bound]) s)"
  using assms
proof (induction inputData pattern plen bound i s rule: rookie_outer.induct)
  case (1 inputData pattern plen bound i s)
  show ?case
  proof (cases "i < bound")
    case False
    then show ?thesis by (simp add: rookie_outer.simps [of inputData pattern plen bound i s])
  next
    case True
    have inner: "rookie_inner inputData pattern plen i 0 s =
        Inr (if occurs_at inputData pattern i then report_hits pattern [i] s else s)"
      using rookie_inner_eq [of plen pattern i inputData 0 s] True "1.prems" by auto
    have upt: "[i..<bound] = i # [i + 1..<bound]"
      using True by (simp add: upt_conv_Cons)
    have step: "rookie_outer inputData pattern plen bound (i + 1)
          (if occurs_at inputData pattern i then report_hits pattern [i] s else s) =
        Inr (report_hits pattern (filter (occurs_at inputData pattern) [i + 1..<bound])
          (if occurs_at inputData pattern i then report_hits pattern [i] s else s))"
      using "1.IH" [OF True inner "1.prems"] .
    show ?thesis
      using True inner step
      by (simp add: rookie_outer.simps [of inputData pattern plen bound i s] upt
          report_hits_append [of pattern "[i]", simplified, symmetric] del: upt_Suc)
  qed
qed

lemma rookieScanMethod_eq:
  assumes "1 \<le> length pattern" "length pattern \<le> length inputData"
    "length inputData < 2 ^ 32" "len = length inputData"
  shows "rookieScanMethod inputData len pattern s =
     Inr (0, report_hits pattern (match_offsets inputData pattern) (s\<lparr>gsHint := 0\<rparr>))"
proof -
  have lt: "length inputData < 2 ^ 64"
    using assms(3) by (rule less_trans) simp
  have b: "scan_bound len (length pattern) = length inputData + 1 - length pattern"
    using assms lt by (simp add: scan_bound_fits)
  have "rookie_outer inputData pattern (length pattern)
          (length inputData + 1 - length pattern) 0 (s\<lparr>gsHint := 0\<rparr>) =
        Inr (report_hits pattern (match_offsets inputData pattern) (s\<lparr>gsHint := 0\<rparr>))"
    unfolding match_offsets_def
    using assms lt by (intro rookie_outer_eq) simp_all
  then show ?thesis
    by (simp add: rookieScanMethod_def strlen_def Let_def b)
qed

lemma str_read_0: "str_read pattern 0 = Inr (first_byte pattern)"
  by (cases pattern) (simp_all add: str_read_def first_byte_def)

lemma memScan_loop_eq:
  "len \<le> length inputData \<Longrightarrow>
   memScan_loop inputData len pattern i s =
     Inr (report_hits pattern (filter (\<lambda>k. inputData ! k = first_byte pattern) [i..<len]) s)"
proof (induction inputData len pattern i s rule: memScan_loop.induct)
  case (1 inputData len pattern i s)
  show ?case
  proof (cases "i < len")
    case False
    then show ?thesis by (simp add: memScan_loop.simps [of inputData len pattern i s])
  next
    case True
    then have rd: "buf_read inputData i = Inr (inputData ! i)"
      using "1.prems" by (simp add: buf_read_def)
    have upt: "[i..<len] = i # [i + 1..<len]"
      using True by (simp add: upt_conv_Cons)
    show ?thesis
    proof (cases "first_byte pattern = inputData ! i")
      case True
      with \<open>i < len\<close> rd "1.IH"(1) [OF \<open>i < len\<close> str_read_0 rd True "1.prems"] show ?thesis
        by (simp add: memScan_loop.simps [of inputData len pattern i s] str_read_0 upt
            report_hits_Cons)
    next
      case False
      with \<open>i < len\<close> rd "1.IH"(2) [OF \<open>i < len\<close> str_read_0 rd False "1.prems"] show ?thesis
        by (auto simp add: memScan_loop.simps [of inputData len pattern i s] str_read_0 upt)
    qed
  qed
qed

lemma memScanMethod_eq:
  "len = length inputData \<Longrightarrow>
   memScanMethod inputData len pattern s =
     Inr (0, report_hits pattern
               (filter (\<lambda>k. inputData ! k = first_byte pattern) [0..<len]) s)"
  by (simp add: memScanMethod_def memScan_loop_eq)

lemma map_ev_to_hit_event: "map ev_to (map (hit_event pattern) hs) = hs"
  by (induction hs) (simp_all add: hit_event_def)

lemma count_list_distinct:
  "distinct xs \<Longrightarrow> count_list xs x = (if x \<in> set xs then 1 else 0)"
  by (induction xs) auto

lemma count_list_filter_upt:
  "count_list (filter P [a..<b]) i = (if a \<le> i \<and> i < b \<and> P i then 1 else 0)"
  by (simp add: count_list_distinct)

lemma length_filter_nth_count:
  "length (filter (\<lambda>k. xs ! k = c) [0..<length xs]) = count_list xs c"
proof (induction xs rule: rev_induct)
  case Nil
  then show ?case by simp
next
  case (snoc x xs)
  have "filter (\<lambda>k. (xs @ [x]) ! k = c) [0..<length xs] =
        filter (\<lambda>k. xs ! k = c) [0..<length xs]"
    by (rule filter_cong) (simp_all add: nth_append)
  with snoc show ?case by simp
qed

lemma length_filter_upt_card:
  "length (filter P [0..<n]) = card {i. i < n \<and> P i}"
proof -
  have "length (filter P [0..<n]) = card (set (filter P [0..<n]))"
    by (rule distinct_card [symmetric]) simp
  also have "set (filter P [0..<n]) = {i. i < n \<and> P i}"
    by auto
  finally show ?thesis .
qed

lemma occurs_at_single:
  assumes "i < length inputData"
  shows "occurs_at inputData [c] i \<longleftrightarrow> inputData ! i = c"
proof -
  have "take 1 (drop i inputData) = [inputData ! i]"
    using assms by (simp add: take_Suc_conv_app_nth)
  then show ?thesis by (auto simp add: occurs_at_def)
qed

lemma lane_add_0 [simp]: "lane_add k 0 fr = fr"
  by (simp add: lane_add_def)

lemma lane_inc_eq: "k < 16 \<Longrightarrow> lane_inc k fr = Inr (lane_add k 1 fr)"
  by (simp add: lane_inc_def lane_add_def)

lemma lane_inc_fault: "\<not> k < 16 \<Longrightarrow> lane_inc k fr = Inl (LaneOutOfBounds k)"
  by (simp add: lane_inc_def)

lemma length_tmpHint_lane_add [simp]:
  "length (tmpHint (lane_add k n fr)) = length (tmpHint fr)"
  by (simp add: lane_add_def)

lemma lane_add_add:
  "k < length (tmpHint fr) \<Longrightarrow> lane_add k n (lane_add k m fr) = lane_add k (m + n) fr"
  by (simp add: lane_add_def replicate_add add.assoc)

lemma myBM_inner_eq:
  assumes "plen = length pattern" "i + plen \<le> length inputData" "length inputData < 2 ^ 64"
    and "j \<le> plen" "take j (drop i inputData) = take j pattern"
  shows "myBM_inner inputData pattern plen i j fr =
     (if j < plen \<and> occurs_at inputData pattern i then lane_inc (plen - 1) fr else Inr fr)"
  using assms
proof (induction inputData pattern plen i j fr rule: myBM_inner.induct)
  case (1 inputData pattern plen i j fr)
  show ?case
  proof (cases "j < plen")
    case False
    then show ?thesis by (simp add: myBM_inner.simps [of inputData pattern plen i j fr])
  next
    case True
    have sr: "str_read pattern j = Inr (pattern ! j)"
      using True "1.prems" by (simp add: str_read_def)
    have sa: "size_add i j = i + j"
      using True "1.prems" by (intro size_add_small) simp
    have br: "buf_read inputData (size_add i j) = Inr (inputData ! (i + j))"
      using True "1.prems" by (simp add: sa buf_read_def)
    have nth: "take plen (drop i inputData) ! j = inputData ! (i + j)"
      using True "1.prems" by simp
    show ?thesis
    proof (cases "pattern ! j = inputData ! (i + j)")
      case False
      have "\<not> occurs_at inputData pattern i"
      proof
        assume "occurs_at inputData pattern i"
        then have "take plen (drop i inputData) ! j = pattern ! j"
          using "1.prems"(1) by (simp add: occurs_at_def)
        with nth False show False by simp
      qed
      with True False sr br show ?thesis
        by (simp add: myBM_inner.simps [of inputData pattern plen i j fr])
    next
      case eq: True
      have pre: "take (j + 1) (drop i inputData) = take (j + 1) pattern"
        using True "1.prems" eq by (simp add: take_Suc_conv_app_nth)
      show ?thesis
      proof (cases "j = plen - 1")
        case last: True
        then have jp: "j + 1 = plen" using True by simp
        have occ: "occurs_at inputData pattern i"
          using pre jp "1.prems"(1) by (simp add: occurs_at_def)
        have stop: "myBM_inner inputData pattern plen i (Suc j) fr' = Inr fr'" for fr'
          using jp by (subst myBM_inner.simps) simp
        have "myBM_inner inputData pattern plen i j fr =
            (case lane_inc j fr of Inl e \<Rightarrow> Inl e
             | Inr fr' \<Rightarrow> myBM_inner inputData pattern plen i (j + 1) fr')"
          using True sr br eq last by (subst myBM_inner.simps) simp
        also have "\<dots> = lane_inc j fr"
          by (simp add: stop split: sum.splits)
        finally show ?thesis
          using True occ last by simp
      next
        case notlast: False
        then have lt: "j + 1 < plen" using True by simp
        have "myBM_inner inputData pattern plen i (j + 1) fr =
            (if j + 1 < plen \<and> occurs_at inputData pattern i
             then lane_inc (plen - 1) fr else Inr fr)"
          using "1.IH"(2) [OF True sr br _ notlast "1.prems"(1,2,3) _ pre] eq lt by simp
        moreover have "myBM_inner inputData pattern plen i j fr =
            myBM_inner inputData pattern plen i (j + 1) fr"
          using True sr br eq notlast by (subst myBM_inner.simps) simp
        ultimately show ?thesis
          using True lt by simp
      qed
    qed
  qed
qed

lemma myBM_outer_eq:
  assumes "plen = length pattern" "1 \<le> plen" "plen \<le> 16"
    "bound + plen \<le> length inputData + 1" "length inputData < 2 ^ 64"
    "length (tmpHint fr) = 16"
  shows "myBM_outer inputData pattern plen bound i fr =
     Inr (lane_add (plen - 1) (length (filter (occurs_at inputData pattern) [i..<bound])) fr)"
  using assms
proof (induction inputData pattern plen bound i fr rule: myBM_outer.induct)
  case (1 inputData pattern plen bound i fr)
  show ?case
  proof (cases "i < bound")
    case False
    then show ?thesis by (simp add: myBM_outer.simps [of inputData pattern plen bound i fr])
  next
    case True
    have k: "plen - 1 < 16" "plen - 1 < length (tmpHint fr)"
      using "1.prems" by simp_all
    define fr' where "fr' = (if occurs_at inputData pattern i then lane_add (plen - 1) 1 fr else fr)"
    have inner: "myBM_inner inputData pattern plen i 0 fr = Inr fr'"
      using myBM_inner_eq [of plen pattern i inputData 0 fr] True "1.prems" k
      by (auto simp add: fr'_def lane_inc_eq)
    have len': "length (tmpHint fr') = 16"
      using "1.prems" by (simp add: fr'_def)
    have upt: "[i..<bound] = i # [i + 1..<bound]"
      using True by (simp add: upt_conv_Cons)
    have step: "myBM_outer inputData pattern plen bound (i + 1) fr' =
        Inr (lane_add (plen - 1)
              (length (filter (occurs_at inputData pattern) [i + 1..<bound])) fr')"
      using "1.IH" [OF True inner "1.prems"(1-5) len'] .
    have "myBM_outer inputData pattern plen bound i fr =
        myBM_outer inputData pattern plen bound (i + 1) fr'"
      using True inner by (subst myBM_outer.simps) simp
    with step show ?thesis
      using k by (simp add: upt fr'_def lane_add_add del: upt_Suc)
  qed
qed

lemma myBM_outer_overflow:
  assumes "plen = length pattern" "16 < plen"
    "bound + plen \<le> length inputData + 1" "length inputData < 2 ^ 64"
  shows "myBM_outer inputData pattern plen bound i fr =
     (if filter (occurs_at inputData pattern) [i..<bound] = [] then Inr fr
      else Inl (LaneOutOfBounds (plen - 1)))"
  using assms
proof (induction inputData pattern plen bound i fr rule: myBM_outer.induct)
  case (1 inputData pattern plen bound i fr)
  show ?case
  proof (cases "i < bound")
    case False
    then show ?thesis by (simp add: myBM_outer.simps [of inputData pattern plen bound i fr])
  next
    case True
    have k: "\<not> plen - 1 < 16"
      using "1.prems" by simp
    have inner: "myBM_inner inputData pattern plen i 0 fr =
        (if occurs_at inputData pattern i then Inl (LaneOutOfBounds (plen - 1)) else Inr fr)"
      using myBM_inner_eq [of plen pattern i inputData 0 fr] True "1.prems" k
      by (auto simp add: lane_inc_fault)
    have upt: "[i..<bound] = i # [i + 1..<bound]"
      using True by (simp add: upt_conv_Cons)
    show ?thesis
    proof (cases "occurs_at inputData pattern i")
      case occ: True
      with True inner show ?thesis
        by (subst myBM_outer.simps) (simp add: upt del: upt_Suc)
    next
      case nocc: False
      with inner have inner': "myBM_inner inputData pattern plen i 0 fr = Inr fr"
        by simp
      have "myBM_outer inputData pattern plen bound i fr =
          myBM_outer inputData pattern plen bound (i + 1) fr"
        using True inner' by (subst myBM_outer.simps) simp
      with "1.IH" [OF True inner' "1.prems"] nocc show ?thesis
        by (simp add: upt del: upt_Suc)
    qed
  qed
qed

lemma fold_add_sum:
  "fold (\<lambda>j acc. acc + f j) [0..<n] (g :: 32 word) = g + (\<Sum>j<n. f j)"
  by (induction n) (simp_all add: add.assoc)

lemma myBM_reduce_single:
  assumes "k < 16"
  shows "myBM_reduce ((replicate 16 0)[k := c]) g = g + scast c"
proof -
  have "(\<Sum>j<16. (scast (((replicate 16 0)[k := c]) ! j) :: 32 word)) =
        (\<Sum>j<16. if k = j then scast c else 0)"
    by (rule sum.cong) (simp_all add: nth_list_update)
  also have "\<dots> = scast c"
    using assms by simp
  finally show ?thesis
    by (simp add: myBM_reduce_def fold_add_sum)
qed

lemma myBMScanMethod_eq:
  assumes "1 \<le> length pattern" "length pattern \<le> 16" "length pattern \<le> length inputData"
    "length inputData < 2 ^ 32" "len = length inputData"
  shows "myBMScanMethod inputData len pattern s =
     Inr (0, s\<lparr>gsHint := gsHint s +
                scast (word_of_nat (length (match_offsets inputData pattern)) :: byte)\<rparr>)"
proof -
  have lt: "length inputData < 2 ^ 64"
    using assms(4) by (rule less_trans) simp
  have b: "scan_bound len (length pattern) = length inputData + 1 - length pattern"
    using assms lt by (simp add: scan_bound_fits)
  have k: "length pattern - 1 < 16"
    using assms(2) by simp
  have "myBM_outer inputData pattern (length pattern)
          (length inputData + 1 - length pattern) 0 myBM_frame0 =
        Inr (lane_add (length pattern - 1) (length (match_offsets inputData pattern)) myBM_frame0)"
    unfolding match_offsets_def
    using assms lt by (intro myBM_outer_eq) (simp_all add: myBM_frame0_def)
  moreover have "tmpHint (lane_add (length pattern - 1) n myBM_frame0) =
      (replicate 16 0)[length pattern - 1 := word_of_nat n]" for n
    using k by (simp add: lane_add_def myBM_frame0_def)
  ultimately show ?thesis
    using k by (simp add: myBMScanMethod_def strlen_def Let_def b myBM_reduce_single)
qed

lemma myBMScanMethod_overflow:
  assumes "16 < length pattern" "length pattern \<le> length inputData"
    "length inputData < 2 ^ 32" "len = length inputData"
  shows "myBMScanMethod inputData len pattern s =
     (if match_offsets inputData pattern = [] then Inr (0, s)
      else Inl (LaneOutOfBounds (length pattern - 1)))"
proof -
  have lt: "length inputData < 2 ^ 64"
    using assms(3) by (rule less_trans) simp
  have b: "scan_bound len (length pattern) = length inputData + 1 - length pattern"
    using assms lt by (simp add: scan_bound_fits)
  have "myBM_outer inputData pattern (length pattern)
          (length inputData + 1 - length pattern) 0 myBM_frame0 =
        (if match_offsets inputData pattern = [] then Inr myBM_frame0
         else Inl (LaneOutOfBounds (length pattern - 1)))"
    unfolding match_offsets_def
    using assms lt by (intro myBM_outer_overflow) simp_all
  moreover have "myBM_reduce (tmpHint myBM_frame0) g = g" for g
  proof -
    have "(\<Sum>j<16. (scast (replicate 16 (0 :: byte) ! j) :: 32 word)) = (\<Sum>j<(16::nat). 0)"
      by (rule sum.cong) simp_all
    then show ?thesis
      by (simp add: myBM_reduce_def fold_add_sum myBM_frame0_def)
  qed
  ultimately show ?thesis
    by (simp add: myBMScanMethod_def strlen_def Let_def b)
qed

lemma lane_inc_Inr:
  "lane_inc j fr = Inr fr' \<Longrightarrow> j < 16 \<and> lane_writes fr' = lane_writes fr @ [j]"
  by (auto simp add: lane_inc_def split: if_splits)

lemma lane_inc_Inl:
  "lane_inc j fr = Inl e \<Longrightarrow> e = LaneOutOfBounds j \<and> 16 \<le> j"
  by (auto simp add: lane_inc_def split: if_splits)

lemma str_read_Inl: "str_read pattern j = Inl e \<Longrightarrow> e = OutOfBoundsRead j"
  by (auto simp add: str_read_def split: if_splits)

lemma buf_read_Inl: "buf_read inputData k = Inl e \<Longrightarrow> e = OutOfBoundsRead k"
  by (auto simp add: buf_read_def split: if_splits)

lemma myBM_inner_lanes_inv:
  assumes "myBM_inner inputData pattern plen i j fr = Inr fr'"
    and "\<forall>k\<in>set (lane_writes fr). k = plen - 1 \<and> k < 16"
  shows "\<forall>k\<in>set (lane_writes fr'). k = plen - 1 \<and> k < 16"
  using assms
proof (induction inputData pattern plen i j fr rule: myBM_inner.induct)
  case (1 inputData pattern plen i j fr)
  show ?case
  proof (cases "j < plen")
    case False
    with "1.prems" show ?thesis
      by (simp add: myBM_inner.simps [of inputData pattern plen i j fr])
  next
    case True
    from "1.prems"(1) True obtain p c where
      sr: "str_read pattern j = Inr p" and br: "buf_read inputData (size_add i j) = Inr c"
      by (subst (asm) myBM_inner.simps) (auto split: sum.splits)
    show ?thesis
    proof (cases "p \<noteq> c")
      case True
      with "1.prems" \<open>j < plen\<close> sr br show ?thesis
        by (subst (asm) myBM_inner.simps) simp
    next
      case eq: False
      show ?thesis
      proof (cases "j = plen - 1")
        case last: True
        from "1.prems"(1) \<open>j < plen\<close> sr br eq last obtain fr1 where
          inc: "lane_inc j fr = Inr fr1" and
          rest: "myBM_inner inputData pattern plen i (j + 1) fr1 = Inr fr'"
          by (subst (asm) myBM_inner.simps) (auto split: sum.splits)
        have "\<forall>k\<in>set (lane_writes fr1). k = plen - 1 \<and> k < 16"
          using lane_inc_Inr [OF inc] "1.prems"(2) last by auto
        with "1.IH"(1) [OF \<open>j < plen\<close> sr br eq last inc rest] show ?thesis .
      next
        case notlast: False
        from "1.prems"(1) \<open>j < plen\<close> sr br eq notlast have
          rest: "myBM_inner inputData pattern plen i (j + 1) fr = Inr fr'"
          by (subst (asm) myBM_inner.simps) simp
        from "1.IH"(2) [OF \<open>j < plen\<close> sr br eq notlast rest "1.prems"(2)] show ?thesis .
      qed
    qed
  qed
qed

lemma myBM_inner_fault:
  assumes "myBM_inner inputData pattern plen i j fr = Inl (LaneOutOfBounds k)"
  shows "k = plen - 1 \<and> 16 \<le> k"
  using assms
proof (induction inputData pattern plen i j fr rule: myBM_inner.induct)
  case (1 inputData pattern plen i j fr)
  show ?case
  proof (cases "j < plen")
    case False
    with "1.prems" show ?thesis
      by (simp add: myBM_inner.simps [of inputData pattern plen i j fr])
  next
    case True
    from "1.prems"(1) True obtain p c where
      sr: "str_read pattern j = Inr p" and br: "buf_read inputData (size_add i j) = Inr c"
      by (subst (asm) myBM_inner.simps)
        (auto split: sum.splits dest: str_read_Inl buf_read_Inl)
    show ?thesis
    proof (cases "p \<noteq> c")
      case True
      with "1.prems" \<open>j < plen\<close> sr br show ?thesis
        by (subst (asm) myBM_inner.simps) simp
    next
      case eq: False
      show ?thesis
      proof (cases "j = plen - 1")
        case last: True
        from "1.prems"(1) \<open>j < plen\<close> sr br eq last have
          "lane_inc j fr = Inl (LaneOutOfBounds k) \<or>
           (\<exists>fr1. lane_inc j fr = Inr fr1 \<and>
              myBM_inner inputData pattern plen i (j + 1) fr1 = Inl (LaneOutOfBounds k))"
          by (subst (asm) myBM_inner.simps) (auto split: sum.splits)
        then show ?thesis
        proof
          assume "lane_inc j fr = Inl (LaneOutOfBounds k)"
          from lane_inc_Inl [OF this] last show ?thesis by simp
        next
          assume "\<exists>fr1. lane_inc j fr = Inr fr1 \<and>
              myBM_inner inputData pattern plen i (j + 1) fr1 = Inl (LaneOutOfBounds k)"
          then obtain fr1 where inc: "lane_inc j fr = Inr fr1"
            and rest: "myBM_inner inputData pattern plen i (j + 1) fr1 = Inl (LaneOutOfBounds k)"
            by blast
          from "1.IH"(1) [OF \<open>j < plen\<close> sr br eq last inc rest] show ?thesis .
        qed
      next
        case notlast: False
        from "1.prems"(1) \<open>j < plen\<close> sr br eq notlast have
          rest: "myBM_inner inputData pattern plen i (j + 1) fr = Inl (LaneOutOfBounds k)"
          by (subst (asm) myBM_inner.simps) simp
        from "1.IH"(2) [OF \<open>j < plen\<close> sr br eq notlast rest] show ?thesis .
      qed
    qed
  qed
qed

lemma myBM_outer_lanes_inv:
  assumes "myBM_outer inputData pattern plen bound i fr = Inr fr'"
    and "\<forall>k\<in>set (lane_writes fr). k = plen - 1 \<and> k < 16"
  shows "\<forall>k\<in>set (lane_writes fr'). k = plen - 1 \<and> k < 16"
  using assms
proof (induction inputData pattern plen bound i fr rule: myBM_outer.induct)
  case (1 inputData pattern plen bound i fr)
  show ?case
  proof (cases "i < bound")
    case False
    with "1.prems" show ?thesis
      by (simp add: myBM_outer.simps [of inputData pattern plen bound i fr])
  next
    case True
    from "1.prems"(1) True obtain fr1 where
      inner: "myBM_inner inputData pattern plen i 0 fr = Inr fr1" and
      rest: "myBM_outer inputData pattern plen bound (i + 1) fr1 = Inr fr'"
      by (subst (asm) myBM_outer.simps) (auto split: sum.splits)
    from "1.IH" [OF True inner rest myBM_inner_lanes_inv [OF inner "1.prems"(2)]]
    show ?thesis .
  qed
qed

lemma myBM_outer_fault:
  assumes "myBM_outer inputData pattern plen bound i fr = Inl (LaneOutOfBounds k)"
  shows "k = plen - 1 \<and> 16 \<le> k"
  using assms
proof (induction inputData pattern plen bound i fr rule: myBM_outer.induct)
  case (1 inputData pattern plen bound i fr)
  show ?case
  proof (cases "i < bound")
    case False
    with "1.prems" show ?thesis
      by (simp add: myBM_outer.simps [of inputData pattern plen bound i fr])
  next
    case True
    from "1.prems"(1) True have
      "myBM_inner inputData pattern plen i 0 fr = Inl (LaneOutOfBounds k) \<or>
       (\<exists>fr1. myBM_inner inputData pattern plen i 0 fr = Inr fr1 \<and>
          myBM_outer inputData pattern plen bound (i + 1) fr1 = Inl (LaneOutOfBounds k))"
      by (subst (asm) myBM_outer.simps) (auto split: sum.splits)
    then show ?thesis
    proof
      assume "myBM_inner inputData pattern plen i 0 fr = Inl (LaneOutOfBounds k)"
      then show ?thesis by (rule myBM_inner_fault)
    next
      assume "\<exists>fr1. myBM_inner inputData pattern plen i 0 fr = Inr fr1 \<and>
          myBM_outer inputData pattern plen bound (i + 1) fr1 = Inl (LaneOutOfBounds k)"
      then obtain fr1 where inner: "myBM_inner inputData pattern plen i 0 fr = Inr fr1"
        and rest: "myBM_outer inputData pattern plen bound (i + 1) fr1 = Inl (LaneOutOfBounds k)"
        by blast
      from "1.IH" [OF True inner rest] show ?thesis .
    qed
  qed
qed

lemma hs_scan_events_eq:
  "hs_scan_events ms ctx r s =
     (r, s\<lparr>gsHint := gsHint s + word_of_nat (length ms),
           calls := calls s @
             map (\<lambda>(ident, from_off, to_off, flags).
                    \<lparr>ev_id = ident, ev_from = from_off, ev_to = to_off, ev_flags = flags,
                       ev_ctx = ctx\<rparr>) ms\<rparr>)"
  by (induction ms ctx r s rule: hs_scan_events.induct) (simp_all add: eventHandler_def)

lemma replay_simps [simp]:
  "replay pattern (Inl e) s = Inl e"
  "replay pattern (Inr hs) s = Inr (report_hits pattern hs s)"
  by (simp_all add: replay_def)

lemma rookie_inner_replay:
  "\<exists>r. \<forall>s. rookie_inner inputData pattern plen i j s = replay pattern r s"
proof (induction "plen - j" arbitrary: j)
  case 0
  then have "\<forall>s. rookie_inner inputData pattern plen i j s = replay pattern (Inr []) s"
    by (simp add: rookie_inner.simps [of inputData pattern plen i j])
  then show ?case ..
next
  case (Suc m)
  then have lt: "j < plen" and m: "m = plen - (j + 1)"
    by arith+
  from Suc.hyps(1) [OF m] obtain r' where
    r': "\<forall>s. rookie_inner inputData pattern plen i (j + 1) s = replay pattern r' s"
    by blast
  show ?case
  proof (cases "str_read pattern j")
    case (Inl e)
    with lt have "\<forall>s. rookie_inner inputData pattern plen i j s = replay pattern (Inl e) s"
      by (simp add: rookie_inner.simps [of inputData pattern plen i j])
    then show ?thesis ..
  next
    case p: (Inr p)
    show ?thesis
    proof (cases "buf_read inputData (size_add i j)")
      case (Inl e)
      with lt p have "\<forall>s. rookie_inner inputData pattern plen i j s = replay pattern (Inl e) s"
        by (simp add: rookie_inner.simps [of inputData pattern plen i j])
      then show ?thesis ..
    next
      case c: (Inr c)
      consider (miss) "p \<noteq> c" | (hit) "p = c" "j = plen - 1" | (go) "p = c" "j \<noteq> plen - 1"
        by blast
      then show ?thesis
      proof cases
        case miss
        with lt p c have "\<forall>s. rookie_inner inputData pattern plen i j s = replay pattern (Inr []) s"
          by (simp add: rookie_inner.simps [of inputData pattern plen i j])
        then show ?thesis ..
      next
        case go
        with lt p c r' have "\<forall>s. rookie_inner inputData pattern plen i j s = replay pattern r' s"
          by (simp add: rookie_inner.simps [of inputData pattern plen i j])
        then show ?thesis ..
      next
        case hit
        have "rookie_inner inputData pattern plen i j s =
            rookie_inner inputData pattern plen i (j + 1) (snd (eventHandler 0 0 i 0 pattern s))"
          for s
          using lt p c hit by (subst rookie_inner.simps) simp
        then have step: "rookie_inner inputData pattern plen i j s =
            replay pattern r' (report_hits pattern [i] s)" for s
          using r' by (simp add: report_hits_single)
        show ?thesis
        proof (cases r')
          case (Inl e)
          with step have "\<forall>s. rookie_inner inputData pattern plen i j s = replay pattern (Inl e) s"
            by simp
          then show ?thesis ..
        next
          case (Inr hs)
          with step have
            "\<forall>s. rookie_inner inputData pattern plen i j s = replay pattern (Inr (i # hs)) s"
            by (simp add: report_hits_append [of pattern "[i]" hs, simplified])
          then show ?thesis ..
        qed
      qed
    qed
  qed
qed

lemma rookie_outer_replay:
  "\<exists>r. \<forall>s. rookie_outer inputData pattern plen bound i s = replay pattern r s"
proof (induction "bound - i" arbitrary: i)
  case 0
  then have "\<forall>s. rookie_outer inputData pattern plen bound i s = replay pattern (Inr []) s"
    by (simp add: rookie_outer.simps [of inputData pattern plen bound i])
  then show ?case ..
next
  case (Suc m)
  then have lt: "i < bound" and m: "m = bound - (i + 1)"
    by arith+
  from Suc.hyps(1) [OF m] obtain r2 where
    r2: "\<forall>s. rookie_outer inputData pattern plen bound (i + 1) s = replay pattern r2 s"
    by blast
  obtain r1 where r1: "\<forall>s. rookie_inner inputData pattern plen i 0 s = replay pattern r1 s"
    using rookie_inner_replay by blast
  show ?case
  proof (cases r1)
    case (Inl e)
    with lt r1 have "\<forall>s. rookie_outer inputData pattern plen bound i s = replay pattern (Inl e) s"
      by (simp add: rookie_outer.simps [of inputData pattern plen bound i])
    then show ?thesis ..
  next
    case hs1: (Inr hs1)
    show ?thesis
    proof (cases r2)
      case (Inl e)
      with lt r1 r2 hs1 have
        "\<forall>s. rookie_outer inputData pattern plen bound i s = replay pattern (Inl e) s"
        by (simp add: rookie_outer.simps [of inputData pattern plen bound i])
      then show ?thesis ..
    next
      case (Inr hs2)
      with lt r1 r2 hs1 have
        "\<forall>s. rookie_outer inputData pattern plen bound i s = replay pattern (Inr (hs1 @ hs2)) s"
        by (simp add: rookie_outer.simps [of inputData pattern plen bound i] report_hits_append)
      then show ?thesis ..
    qed
  qed
qed

lemma memScan_loop_replay:
  "\<exists>r. \<forall>s. memScan_loop inputData len pattern i s = replay pattern r s"
proof (induction "len - i" arbitrary: i)
  case 0
  then have "\<forall>s. memScan_loop inputData len pattern i s = replay pattern (Inr []) s"
    by (simp add: memScan_loop.simps [of inputData len pattern i])
  then show ?case ..
next
  case (Suc m)
  then have lt: "i < len" and m: "m = len - (i + 1)"
    by arith+
  from Suc.hyps(1) [OF m] obtain r' where
    r': "\<forall>s. memScan_loop inputData len pattern (i + 1) s = replay pattern r' s"
    by blast
  show ?case
  proof (cases "buf_read inputData i")
    case (Inl e)
    with lt have "\<forall>s. memScan_loop inputData len pattern i s = replay pattern (Inl e) s"
      by (simp add: memScan_loop.simps [of inputData len pattern i] str_read_0)
    then show ?thesis ..
  next
    case c: (Inr c)
    show ?thesis
    proof (cases "first_byte pattern = c")
      case False
      with lt c r' have "\<forall>s. memScan_loop inputData len pattern i s = replay pattern r' s"
        by (simp add: memScan_loop.simps [of inputData len pattern i] str_read_0)
      then show ?thesis ..
    next
      case True
      have step: "memScan_loop inputData len pattern i s =
          replay pattern r' (report_hits pattern [i] s)" for s
        using lt c True r'
        by (simp add: memScan_loop.simps [of inputData len pattern i] str_read_0
            report_hits_single)
      show ?thesis
      proof (cases r')
        case (Inl e)
        with step have "\<forall>s. memScan_loop inputData len pattern i s = replay pattern (Inl e) s"
          by simp
        then show ?thesis ..
      next
        case (Inr hs)
        with step have
          "\<forall>s. memScan_loop inputData len pattern i s = replay pattern (Inr (i # hs)) s"
          by (simp add: report_hits_append [of pattern "[i]" hs, simplified])
        then show ?thesis ..
      qed
    qed
  qed
qed

lemma sint_reset_report_hits:
  "gsHint (report_hits pattern hs (s\<lparr>gsHint := 0\<rparr>)) = gsHint (report_hits pattern hs init_state)"
  by (simp add: report_hits_def init_state_def)

lemma init_state_reset [simp]: "init_state\<lparr>gsHint := 0\<rparr> = init_state"
  by (simp add: init_state_def)

lemma memScanMethod_local:
  assumes "memScanMethod inputData len pattern (s\<lparr>gsHint := 0\<rparr>) = Inr (rc, s')"
  shows "hit_count (memScanMethod inputData len pattern init_state) = Some (sint (gsHint s'))"
proof -
  obtain r where r: "\<forall>s. memScan_loop inputData len pattern 0 s = replay pattern r s"
    using memScan_loop_replay by blast
  show ?thesis
  proof (cases r)
    case (Inl e)
    with r assms show ?thesis by (simp add: memScanMethod_def)
  next
    case (Inr hs)
    with r assms have "s' = report_hits pattern hs (s\<lparr>gsHint := 0\<rparr>)"
      by (auto simp add: memScanMethod_def)
    with r Inr show ?thesis
      by (simp add: memScanMethod_def hit_count_def sint_reset_report_hits)
  qed
qed

lemma rookieScanMethod_local:
  assumes "rookieScanMethod inputData len pattern (s\<lparr>gsHint := 0\<rparr>) = Inr (rc, s')"
  shows "hit_count (rookieScanMethod inputData len pattern init_state) = Some (sint (gsHint s'))"
proof -
  obtain r where r: "\<forall>s. rookie_outer inputData pattern (strlen pattern)
      (scan_bound len (strlen pattern)) 0 s = replay pattern r s"
    using rookie_outer_replay by blast
  show ?thesis
  proof (cases r)
    case (Inl e)
    with r assms show ?thesis by (simp add: rookieScanMethod_def Let_def)
  next
    case (Inr hs)
    with r assms have "s' = report_hits pattern hs (s\<lparr>gsHint := 0\<rparr>)"
      by (auto simp add: rookieScanMethod_def Let_def)
    with r Inr show ?thesis
      by (simp add: rookieScanMethod_def Let_def hit_count_def sint_reset_report_hits)
  qed
qed

lemma myBMScanMethod_local:
  assumes "myBMScanMethod inputData len pattern (s\<lparr>gsHint := 0\<rparr>) = Inr (rc, s')"
  shows "hit_count (myBMScanMethod inputData len pattern init_state) = Some (sint (gsHint s'))"
  using assms
  by (auto simp add: myBMScanMethod_def Let_def hit_count_def init_state_def split: sum.splits)

lemma hyperScanMethod_local:
  assumes "hyperScanMethod eng inputData len pattern (s\<lparr>gsHint := 0\<rparr>) = Inr (rc, s')"
  shows "hit_count (hyperScanMethod eng inputData len pattern init_state) = Some (sint (gsHint s'))"
  using assms
  by (auto simp add: hyperScanMethod_def hs_scan_def hs_scan_events_eq hit_count_def
      init_state_def split: sum.splits if_splits)

lemma paraScanMethod_local:
  assumes "paraScanMethod inputData len pattern (s\<lparr>gsHint := 0\<rparr>) = Inr (rc, s')"
  shows "hit_count (paraScanMethod inputData len pattern init_state) = Some (sint (gsHint s'))"
  using assms by (auto simp add: paraScanMethod_def hit_count_def init_state_def)

lemma main_loop_lines:
  assumes "\<forall>(testName, testFun)\<in>set items. \<forall>s rc s'.
      testFun inputData len pattern (s\<lparr>gsHint := 0\<rparr>) = Inr (rc, s') \<longrightarrow>
      hit_count (testFun inputData len pattern init_state) = Some (sint (gsHint s'))"
    and "main_loop items ret inputData len pattern s = Inr (lines, s')"
  shows "map rl_name lines = map fst items \<and>
    map (\<lambda>line. Some (rl_hit line)) lines =
      map (\<lambda>(testName, testFun). hit_count (testFun inputData len pattern init_state)) items"
  using assms
proof (induction items arbitrary: s lines s')
  case Nil
  then show ?case by simp
next
  case (Cons item items)
  obtain testName testFun where item: "item = (testName, testFun)"
    by (cases item)
  from Cons.prems(2) item obtain rc s1 rest s2 where
    run: "testFun inputData len pattern (s\<lparr>gsHint := 0\<rparr>) = Inr (rc, s1)" and
    tail: "main_loop items ret inputData len pattern s1 = Inr (rest, s2)" and
    lines: "lines = \<lparr>rl_name = testName,
        rl_status = (if ret = HS_SUCCESS then ''DONE'' else ''ERROR''),
        rl_hit = sint (gsHint s1)\<rparr> # rest"
    by (auto split: sum.splits prod.splits)
  have hit: "hit_count (testFun inputData len pattern init_state) = Some (sint (gsHint s1))"
    using Cons.prems(1) run item by auto
  have "map rl_name rest = map fst items \<and>
    map (\<lambda>line. Some (rl_hit line)) rest =
      map (\<lambda>(testName, testFun). hit_count (testFun inputData len pattern init_state)) items"
  proof (rule Cons.IH [OF _ tail])
    show "\<forall>(testName, testFun)\<in>set items. \<forall>s rc s'.
        testFun inputData len pattern (s\<lparr>gsHint := 0\<rparr>) = Inr (rc, s') \<longrightarrow>
        hit_count (testFun inputData len pattern init_state) = Some (sint (gsHint s'))"
      using Cons.prems(1) by simp
  qed
  with hit lines item show ?case by simp
qed

lemma report_hits_counts_calls:
  "gsHint (report_hits pattern hs init_state) =
     word_of_nat (length (calls (report_hits pattern hs init_state)))"
  by (simp add: report_hits_def init_state_def)

lemma memScanMethod_counts_calls:
  assumes "memScanMethod inputData len pattern init_state = Inr (rc, t)"
  shows "gsHint t = word_of_nat (length (calls t))"
proof -
  obtain r where r: "\<forall>s. memScan_loop inputData len pattern 0 s = replay pattern r s"
    using memScan_loop_replay by blast
  with assms show ?thesis
    by (cases r) (auto simp add: memScanMethod_def report_hits_counts_calls)
qed

lemma rookieScanMethod_counts_calls:
  assumes "rookieScanMethod inputData len pattern init_state = Inr (rc, t)"
  shows "gsHint t = word_of_nat (length (calls t))"
proof -
  obtain r where r: "\<forall>s. rookie_outer inputData pattern (strlen pattern)
      (scan_bound len (strlen pattern)) 0 s = replay pattern r s"
    using rookie_outer_replay by blast
  with assms show ?thesis
    by (cases r) (auto simp add: rookieScanMethod_def Let_def report_hits_counts_calls)
qed

lemma hyperScanMethod_counts_calls:
  assumes "hyperScanMethod eng inputData len pattern init_state = Inr (rc, t)"
  shows "gsHint t = word_of_nat (length (calls t))"
  using assms
  by (auto simp add: hyperScanMethod_def hs_scan_def hs_scan_events_eq init_state_def
      split: sum.splits if_splits)

lemma testFuncArr_local:
  "\<forall>(testName, testFun)\<in>set (testFuncArr eng). \<forall>s rc s'.
      testFun inputData len pattern (s\<lparr>gsHint := 0\<rparr>) = Inr (rc, s') \<longrightarrow>
      hit_count (testFun inputData len pattern init_state) = Some (sint (gsHint s'))"
  by (simp add: testFuncArr_def memScanMethod_local hyperScanMethod_local
      rookieScanMethod_local myBMScanMethod_local paraScanMethod_local)

lemma hyperScanMethod_returns:
  "\<exists>rc s'. hyperScanMethod eng inputData len pattern s = Inr (rc, s')"
  by (simp add: hyperScanMethod_def hs_scan_def hs_scan_events_eq split: sum.splits)

lemma main_loop_returns:
  assumes "1 \<le> length pattern" "length pattern \<le> 16" "length pattern \<le> length inputData"
    "length inputData < 2 ^ 32" "len = length inputData"
  shows "\<exists>lines s'. main_loop (testFuncArr eng) ret inputData len pattern s = Inr (lines, s')"
proof -
  obtain rc1 s1 where 1: "memScanMethod inputData len pattern (s\<lparr>gsHint := 0\<rparr>) = Inr (rc1, s1)"
    using assms(5) by (simp add: memScanMethod_eq)
  obtain rc2 s2 where 2: "hyperScanMethod eng inputData len pattern (s1\<lparr>gsHint := 0\<rparr>) = Inr (rc2, s2)"
    using hyperScanMethod_returns by blast
  obtain rc3 s3 where 3: "rookieScanMethod inputData len pattern (s2\<lparr>gsHint := 0\<rparr>) = Inr (rc3, s3)"
    using assms by (simp add: rookieScanMethod_eq)
  obtain rc4 s4 where 4: "myBMScanMethod inputData len pattern (s3\<lparr>gsHint := 0\<rparr>) = Inr (rc4, s4)"
    using assms by (simp add: myBMScanMethod_eq)
  have 5: "paraScanMethod inputData len pattern (s4\<lparr>gsHint := 0\<rparr>) = Inr (0, s4\<lparr>gsHint := 0\<rparr>)"
    by (simp add: paraScanMethod_def)
  show ?thesis
    by (simp add: testFuncArr_def 1 2 3 4 5)
qed

lemma main_loop_status:
  assumes "main_loop items ret inputData len pattern s = Inr (lines, s')"
  shows "map rl_status lines = map (\<lambda>item. if ret = HS_SUCCESS then ''DONE'' else ''ERROR'') items"
  using assms
proof (induction items arbitrary: s lines s')
  case Nil
  then show ?case by simp
next
  case (Cons item items)
  obtain testName testFun where item: "item = (testName, testFun)"
    by (cases item)
  from Cons.prems item obtain rc s1 rest s2 where
    tail: "main_loop items ret inputData len pattern s1 = Inr (rest, s2)" and
    lines: "lines = \<lparr>rl_name = testName,
        rl_status = (if ret = HS_SUCCESS then ''DONE'' else ''ERROR''),
        rl_hit = sint (gsHint s1)\<rparr> # rest"
    by (auto split: sum.splits prod.splits)
  from Cons.IH [OF tail] lines show ?case by simp
qed

lemma scan_bound_empty: "scan_bound len (Suc len) = 0"
  by (simp add: scan_bound_def)

lemma unat_of_nat_size_t:
  assumes "n < 2 ^ 64"
  shows "unat (word_of_nat n :: 64 word) = n"
proof -
  have "unat (word_of_nat n :: 64 word) = n mod 2 ^ 64"
    unfolding unat_of_nat by simp
  with assms show ?thesis by simp
qed

lemma scan_bound_wraps:
  assumes "len + 2 \<le> plen" "plen < 2 ^ 64"
  shows "scan_bound len plen = 2 ^ 64 + len + 1 - plen"
proof -
  define a :: "64 word" where "a = word_of_nat len"
  define b :: "64 word" where "b = word_of_nat (plen - 1)"
  have ab: "(word_of_nat len :: 64 word) - (word_of_nat plen - 1) = a - b"
    using assms by (simp add: a_def b_def of_nat_diff)
  have ua: "unat a = len"
    unfolding a_def using assms by (intro unat_of_nat_size_t) arith
  have ub: "unat b = plen - 1"
    unfolding b_def using assms by (intro unat_of_nat_size_t) arith
  have "\<not> plen - 1 \<le> len"
    using assms by arith
  then have "unat (a - b) = len + 2 ^ 64 - (plen - 1)"
    by (simp add: unat_sub_if_size ua ub word_size)
  then show ?thesis
    using assms by (simp add: scan_bound_def ab)
qed

lemma rookie_outer_overrun:
  assumes "i \<le> length inputData" "length inputData < bound" "0 < plen"
    "length inputData < 2 ^ 64"
  shows "\<exists>e. rookie_outer inputData pattern plen bound i s = Inl e"
  using assms(1)
proof (induction "length inputData - i" arbitrary: i s)
  case 0
  then have i: "i = length inputData" by simp
  have "size_add i 0 = i"
    using assms(4) i by (simp add: size_add_def)
  then have rd: "buf_read inputData (size_add i 0) = Inl (OutOfBoundsRead i)"
    using i by (simp add: buf_read_def)
  have "\<exists>e. rookie_inner inputData pattern plen i 0 s = Inl e"
    using assms(3) rd by (subst rookie_inner.simps) (simp split: sum.splits)
  then show ?case
    using assms(2) i by (subst rookie_outer.simps) auto
next
  case (Suc m)
  then have lt: "i < length inputData" and m: "m = length inputData - (i + 1)"
    and le: "i + 1 \<le> length inputData"
    by arith+
  have ib: "i < bound"
    using lt assms(2) by simp
  show ?case
  proof (cases "rookie_inner inputData pattern plen i 0 s")
    case (Inl e)
    with ib show ?thesis by (subst rookie_outer.simps) simp
  next
    case (Inr s1)
    from Suc.hyps(1) [OF m le, of s1] obtain e where
      "rookie_outer inputData pattern plen bound (i + 1) s1 = Inl e" by blast
    with ib Inr show ?thesis by (subst rookie_outer.simps) simp
  qed
qed

lemma myBM_outer_overrun:
  assumes "i \<le> length inputData" "length inputData < bound" "0 < plen"
    "length inputData < 2 ^ 64"
  shows "\<exists>e. myBM_outer inputData pattern plen bound i fr = Inl e"
  using assms(1)
proof (induction "length inputData - i" arbitrary: i fr)
  case 0
  then have i: "i = length inputData" by simp
  have "size_add i 0 = i"
    using assms(4) i by (simp add: size_add_def)
  then have rd: "buf_read inputData (size_add i 0) = Inl (OutOfBoundsRead i)"
    using i by (simp add: buf_read_def)
  have "\<exists>e. myBM_inner inputData pattern plen i 0 fr = Inl e"
    using assms(3) rd by (subst myBM_inner.simps) (simp split: sum.splits)
  then show ?case
    using assms(2) i by (subst myBM_outer.simps) auto
next
  case (Suc m)
  then have lt: "i < length inputData" and m: "m = length inputData - (i + 1)"
    and le: "i + 1 \<le> length inputData"
    by arith+
  have ib: "i < bound"
    using lt assms(2) by simp
  show ?case
  proof (cases "myBM_inner inputData pattern plen i 0 fr")
    case (Inl e)
    with ib show ?thesis by (subst myBM_outer.simps) simp
  next
    case (Inr fr1)
    from Suc.hyps(1) [OF m le, of fr1] obtain e where
      "myBM_outer inputData pattern plen bound (i + 1) fr1 = Inl e" by blast
    with ib Inr show ?thesis by (subst myBM_outer.simps) simp
  qed
qed

lemma scans_fault_on_underflow:
  assumes "len = length inputData" "len + 2 \<le> length pattern" "length pattern < 2 ^ 64"
  shows "(\<exists>e. rookieScanMethod inputData len pattern s = Inl e) \<and>
         (\<exists>e. myBMScanMethod inputData len pattern s = Inl e)"
proof -
  have b: "scan_bound len (length pattern) = 2 ^ 64 + len + 1 - length pattern"
    using assms by (intro scan_bound_wraps)
  have gt: "length inputData < scan_bound len (length pattern)"
    using assms unfolding b by arith
  have l64: "length inputData < 2 ^ 64"
    using assms by arith
  have pos: "0 < length pattern"
    using assms by arith
  obtain e1 where "rookie_outer inputData pattern (length pattern)
      (scan_bound len (length pattern)) 0 (s\<lparr>gsHint := 0\<rparr>) = Inl e1"
    using rookie_outer_overrun [OF _ gt pos l64, of 0] by auto
  moreover obtain e2 where "myBM_outer inputData pattern (length pattern)
      (scan_bound len (length pattern)) 0 myBM_frame0 = Inl e2"
    using myBM_outer_overrun [OF _ gt pos l64, of 0] by auto
  ultimately show ?thesis
    by (simp add: rookieScanMethod_def myBMScanMethod_def strlen_def Let_def)
qed

lemma scans_skip_when_one_longer:
  assumes "len = length inputData" "length pattern = len + 1"
  shows "rookieScanMethod inputData len pattern s = Inr (0, s\<lparr>gsHint := 0\<rparr>) \<and>
         myBMScanMethod inputData len pattern s = Inr (0, s)"
proof -
  have b: "scan_bound len (length pattern) = 0"
    using assms by (simp add: scan_bound_empty)
  have z: "myBM_reduce (replicate 16 0) g = g" for g
  proof -
    have "(\<Sum>j<16. (scast (replicate 16 (0 :: byte) ! j) :: 32 word)) = (\<Sum>j<(16::nat). 0)"
      by (rule sum.cong) simp_all
    then show ?thesis
      by (simp add: myBM_reduce_def fold_add_sum)
  qed
  show ?thesis
    by (simp add: rookieScanMethod_def myBMScanMethod_def strlen_def Let_def b
        rookie_outer.simps [of _ _ _ 0] myBM_outer.simps [of _ _ _ 0] myBM_frame0_def z)
qed

lemma scast_small:
  assumes "n < 128"
  shows "(scast (word_of_nat n :: 8 word) :: 32 word) = word_of_nat n"
proof -
  have "sint (word_of_nat n :: 8 word) = signed_take_bit 7 (int n)"
    by (simp add: signed_of_nat)
  also have "\<dots> = int n"
    using assms by (intro signed_take_bit_int_eq_self) simp_all
  finally show ?thesis
    by (simp add: scast_eq)
qed

lemma myBMScanMethod_agrees_below_128:
  assumes "1 \<le> length pattern" "length pattern \<le> 16" "length pattern \<le> length inputData"
    "length inputData < 2 ^ 32" "len = length inputData"
    "length (match_offsets inputData pattern) < 128"
  shows "\<exists>s1 s2. rookieScanMethod inputData len pattern s = Inr (0, s1)
           \<and> myBMScanMethod inputData len pattern (s\<lparr>gsHint := 0\<rparr>) = Inr (0, s2)
           \<and> gsHint s1 = gsHint s2"
  using assms
  by (simp add: rookieScanMethod_eq myBMScanMethod_eq scast_small report_hits_def)

section \<open>Properties of the strategies\<close>

text \<open>
  C6: for a non-empty pattern, \<open>memScanMethod\<close> calls the callback exactly once for
  each position of the buffer that holds the pattern's first byte, with that position as
  the offset, and compares nothing else: the number of events is the number of occurrences
  of that byte in the buffer, and the counter grows by it.
\<close>

theorem memScanMethod_first_byte_hits:
  assumes "pattern \<noteq> []" "len = length inputData"
  shows "\<exists>new. memScanMethod inputData len pattern s =
            Inr (0, s\<lparr>gsHint := gsHint s + word_of_nat (length new), calls := calls s @ new\<rparr>)
         \<and> new = map (hit_event pattern) (filter (\<lambda>i. inputData ! i = hd pattern) [0..<len])
         \<and> (\<forall>i. count_list (map ev_to new) i =
                  (if i < len \<and> inputData ! i = hd pattern then 1 else 0))
         \<and> length new = count_list inputData (hd pattern)"
proof -
  have fb: "first_byte pattern = hd pattern"
    using assms(1) by (cases pattern) (simp_all add: first_byte_def)
  define hs where "hs = filter (\<lambda>i. inputData ! i = hd pattern) [0..<len]"
  define new where "new = map (hit_event pattern) hs"
  have run: "memScanMethod inputData len pattern s =
      Inr (0, s\<lparr>gsHint := gsHint s + word_of_nat (length new), calls := calls s @ new\<rparr>)"
    using assms(2) by (simp add: memScanMethod_eq fb report_hits_def new_def hs_def)
  have offs: "map ev_to new = hs"
    by (simp only: new_def map_ev_to_hit_event)
  have once: "\<forall>i. count_list (map ev_to new) i =
      (if i < len \<and> inputData ! i = hd pattern then 1 else 0)"
    unfolding offs hs_def by (simp add: count_list_filter_upt)
  have total: "length new = count_list inputData (hd pattern)"
    using assms(2) by (simp add: new_def hs_def length_filter_nth_count)
  from run once total show ?thesis
    unfolding new_def hs_def by blast
qed

theorem memScanMethod_first_byte_hits_witness:
  "memScanMethod [97, 98, 97] 3 [97, 99] init_state =
     Inr (0, \<lparr>gsHint = 2, calls = [hit_event [97, 99] 0, hit_event [97, 99] 2]\<rparr>)
   \<and> count_list [97, 98, 97 :: byte] 97 = 2"
proof -
  have u: "[0..<3] = [0, 1, 2 :: nat]"
    by code_simp
  show ?thesis
    using memScanMethod_first_byte_hits [of "[97, 99]" 3 "[97, 98, 97]" init_state]
    by (simp add: init_state_def u)
qed

text \<open>
  C5: for a pattern of length \<open>P\<close> with \<open>1 \<le> P \<le> L\<close>, \<open>rookieScanMethod\<close>
  calls the callback exactly once for each start offset \<open>i \<le> L - P\<close> at which the
  pattern occurs in the buffer, overlapping occurrences included, and for no other offset;
  the counter ends at the number of these offsets.
\<close>

theorem rookieScanMethod_one_event_per_occurrence:
  assumes "1 \<le> length pattern" "length pattern \<le> length inputData"
    "length inputData < 2 ^ 32" "len = length inputData"
  shows "\<exists>new. rookieScanMethod inputData len pattern s =
            Inr (0, \<lparr>gsHint = word_of_nat (length new), calls = calls s @ new\<rparr>)
         \<and> (\<forall>i. count_list (map ev_to new) i =
                  (if i \<le> length inputData - length pattern \<and> occurs_at inputData pattern i
                   then 1 else 0))
         \<and> length new =
             card {i. i \<le> length inputData - length pattern \<and> occurs_at inputData pattern i}"
proof -
  define new where "new = map (hit_event pattern) (match_offsets inputData pattern)"
  have bound: "i < Suc (length inputData) - length pattern \<longleftrightarrow>
      i \<le> length inputData - length pattern" for i
    using assms(1,2) by arith
  have run: "rookieScanMethod inputData len pattern s =
      Inr (0, \<lparr>gsHint = word_of_nat (length new), calls = calls s @ new\<rparr>)"
    using rookieScanMethod_eq [OF assms] by (simp add: report_hits_def new_def)
  have offs: "map ev_to new = match_offsets inputData pattern"
    by (simp only: new_def map_ev_to_hit_event)
  have once: "\<forall>i. count_list (map ev_to new) i =
      (if i \<le> length inputData - length pattern \<and> occurs_at inputData pattern i then 1 else 0)"
    unfolding offs match_offsets_def by (simp add: count_list_filter_upt bound)
  have total: "length new =
      card {i. i \<le> length inputData - length pattern \<and> occurs_at inputData pattern i}"
    by (simp add: new_def match_offsets_def length_filter_upt_card bound)
  from run once total show ?thesis by blast
qed

theorem rookieScanMethod_one_event_per_occurrence_witness:
  "rookieScanMethod [97, 97, 97] 3 [97, 97] init_state =
     Inr (0, \<lparr>gsHint = 2, calls = [hit_event [97, 97] 0, hit_event [97, 97] 1]\<rparr>)"
proof -
  have run: "rookieScanMethod [97, 97, 97] 3 [97, 97] init_state =
     Inr (0, \<lparr>gsHint = 2, calls = [hit_event [97, 97] 0, hit_event [97, 97] 1]\<rparr>)"
    by code_simp
  obtain new where
    "rookieScanMethod [97, 97, 97] 3 [97, 97] init_state =
       Inr (0, \<lparr>gsHint = word_of_nat (length new), calls = calls init_state @ new\<rparr>)"
    using rookieScanMethod_one_event_per_occurrence [of "[97, 97]" "[97, 97, 97]" 3 init_state]
    by auto
  with run show ?thesis by simp
qed

text \<open>
  C3, as the code has it: for every occurrence found at the start offset \<open>i\<close>, the
  event handed to the callback carries \<open>from = 0\<close> and \<open>to = i\<close>, the start offset
  itself (not \<open>i + P - 1\<close>); scanning \<open>abababab\<close> for \<open>aba\<close> delivers the offsets
  0, 2 and 4.
\<close>

theorem rookieScanMethod_reports_start_offset:
  assumes "1 \<le> length pattern" "length pattern \<le> length inputData"
    "length inputData < 2 ^ 32" "len = length inputData"
  shows "rookieScanMethod inputData len pattern s =
           Inr (0, \<lparr>gsHint = word_of_nat (length (match_offsets inputData pattern)),
                    calls = calls s @
                      map (\<lambda>i. \<lparr>ev_id = 0, ev_from = 0, ev_to = i, ev_flags = 0,
                                 ev_ctx = pattern\<rparr>)
                        (match_offsets inputData pattern)\<rparr>)"
  using rookieScanMethod_eq [OF assms] by (simp add: report_hits_def hit_event_def)

theorem rookieScanMethod_reports_start_offset_witness:
  "map ev_to (delivered (rookieScanMethod [97, 98, 97, 98, 97, 98, 97, 98] 8 [97, 98, 97]
      init_state)) = [0, 2, 4]"
proof -
  have m: "match_offsets [97, 98, 97, 98, 97, 98, 97, 98] [97, 98, 97] = [0, 2, 4]"
    by code_simp
  show ?thesis
    using rookieScanMethod_reports_start_offset
      [of "[97, 98, 97]" "[97, 98, 97, 98, 97, 98, 97, 98]" 8 init_state]
    by (simp add: m delivered_def init_state_def)
qed

theorem rookieScanMethod_end_offset_counterexample:
  "map ev_to (delivered (rookieScanMethod [97, 98, 97, 98, 97, 98, 97, 98] 8 [97, 98, 97]
      init_state)) = [0, 2, 4]
   \<and> map ev_to (delivered (rookieScanMethod [97, 98, 97, 98, 97, 98, 97, 98] 8 [97, 98, 97]
      init_state)) \<noteq> [2, 4, 6]"
  by code_simp

text \<open>
  C7: for a pattern of length 1 and a non-empty buffer, \<open>memScanMethod\<close>, started with
  the counter at zero, and \<open>rookieScanMethod\<close> end in the same state: the same events
  and the same hit count.
\<close>

theorem memScanMethod_eq_rookieScanMethod_single_byte:
  assumes "length pattern = 1" "1 \<le> length inputData"
    "length inputData < 2 ^ 32" "len = length inputData"
  shows "\<exists>s'. memScanMethod inputData len pattern (s\<lparr>gsHint := 0\<rparr>) = Inr (0, s')
            \<and> rookieScanMethod inputData len pattern s = Inr (0, s')"
proof -
  obtain c where p: "pattern = [c]"
    using assms(1) by (cases pattern) simp_all
  have "filter (occurs_at inputData [c]) [0..<length inputData] =
        filter (\<lambda>k. inputData ! k = c) [0..<length inputData]"
    by (rule filter_cong) (simp_all add: occurs_at_single)
  then have offs: "match_offsets inputData pattern =
      filter (\<lambda>k. inputData ! k = first_byte pattern) [0..<len]"
    using assms(4) by (simp add: match_offsets_def p first_byte_def)
  have "1 \<le> length pattern" "length pattern \<le> length inputData"
    using assms(1,2) by simp_all
  then have "rookieScanMethod inputData len pattern s =
      Inr (0, report_hits pattern (match_offsets inputData pattern) (s\<lparr>gsHint := 0\<rparr>))"
    using assms(3,4) by (rule rookieScanMethod_eq)
  moreover have "memScanMethod inputData len pattern (s\<lparr>gsHint := 0\<rparr>) =
      Inr (0, report_hits pattern (match_offsets inputData pattern) (s\<lparr>gsHint := 0\<rparr>))"
    using assms(4) by (simp add: memScanMethod_eq offs)
  ultimately show ?thesis by blast
qed

theorem memScanMethod_eq_rookieScanMethod_single_byte_witness:
  "memScanMethod [116, 111, 111] 3 [111] init_state =
     Inr (0, \<lparr>gsHint = 2, calls = [hit_event [111] 1, hit_event [111] 2]\<rparr>)
   \<and> rookieScanMethod [116, 111, 111] 3 [111] init_state =
     Inr (0, \<lparr>gsHint = 2, calls = [hit_event [111] 1, hit_event [111] 2]\<rparr>)"
proof -
  have m: "memScanMethod [116, 111, 111] 3 [111] (init_state\<lparr>gsHint := 0\<rparr>) =
     Inr (0, \<lparr>gsHint = 2, calls = [hit_event [111] 1, hit_event [111] 2]\<rparr>)"
    by code_simp
  show ?thesis
    using memScanMethod_eq_rookieScanMethod_single_byte [of "[111]" "[116, 111, 111]" 3 init_state] m
    by (auto simp add: init_state_def)
qed

text \<open>
  C10: every increment of \<open>tmpHint\<close> in the loop nest of \<open>myBMScanMethod\<close> is at
  the index \<open>strlen pattern - 1\<close>. When the loop nest returns, every logged index is
  that one and is below 16; a lane fault can only name that index and only arises for a
  pattern longer than 16 bytes; a pattern of at most 16 bytes never faults on a lane;
  and a pattern of more than 16 bytes that occurs in the buffer does fault.
\<close>

theorem myBMScanMethod_lane_index:
  "(\<forall>fr. myBM_outer inputData pattern (strlen pattern) (scan_bound len (strlen pattern)) 0
            myBM_frame0 = Inr fr \<longrightarrow>
          (\<forall>k\<in>set (lane_writes fr). k = strlen pattern - 1 \<and> k < 16))
   \<and> (\<forall>k. myBMScanMethod inputData len pattern s = Inl (LaneOutOfBounds k) \<longrightarrow>
          k = strlen pattern - 1 \<and> 16 < strlen pattern)
   \<and> (strlen pattern \<le> 16 \<longrightarrow>
        (\<forall>k. myBMScanMethod inputData len pattern s \<noteq> Inl (LaneOutOfBounds k)))
   \<and> (16 < strlen pattern \<and> strlen pattern \<le> length inputData \<and> length inputData < 2 ^ 32
        \<and> len = length inputData \<and> match_offsets inputData pattern \<noteq> [] \<longrightarrow>
        myBMScanMethod inputData len pattern s = Inl (LaneOutOfBounds (strlen pattern - 1)))"
proof -
  let ?loops = "myBM_outer inputData pattern (strlen pattern) (scan_bound len (strlen pattern)) 0
            myBM_frame0"
  have a: "\<forall>fr. ?loops = Inr fr \<longrightarrow> (\<forall>k\<in>set (lane_writes fr). k = strlen pattern - 1 \<and> k < 16)"
  proof (intro allI impI)
    fix fr assume "?loops = Inr fr"
    then show "\<forall>k\<in>set (lane_writes fr). k = strlen pattern - 1 \<and> k < 16"
      by (rule myBM_outer_lanes_inv) (simp add: myBM_frame0_def)
  qed
  have b: "k = strlen pattern - 1 \<and> 16 < strlen pattern"
    if "myBMScanMethod inputData len pattern s = Inl (LaneOutOfBounds k)" for k
  proof -
    from that have "?loops = Inl (LaneOutOfBounds k)"
      by (simp add: myBMScanMethod_def Let_def split: sum.splits)
    from myBM_outer_fault [OF this] show ?thesis by arith
  qed
  have c: "strlen pattern \<le> 16 \<longrightarrow>
        (\<forall>k. myBMScanMethod inputData len pattern s \<noteq> Inl (LaneOutOfBounds k))"
    using b by fastforce
  have d: "16 < strlen pattern \<and> strlen pattern \<le> length inputData \<and> length inputData < 2 ^ 32
        \<and> len = length inputData \<and> match_offsets inputData pattern \<noteq> [] \<longrightarrow>
        myBMScanMethod inputData len pattern s = Inl (LaneOutOfBounds (strlen pattern - 1))"
    by (simp add: strlen_def myBMScanMethod_overflow)
  from a b c d show ?thesis by blast
qed

theorem myBMScanMethod_lane_index_witness:
  "myBM_outer [97, 98, 97, 98, 97, 98, 97, 98] [97, 98, 97] (strlen [97, 98, 97])
      (scan_bound 8 (strlen [97, 98, 97])) 0 myBM_frame0 =
     Inr \<lparr>tmpHint = [0, 0, 3, 0, 0, 0, 0, 0, 0, 0, 0, 0, 0, 0, 0, 0], lane_writes = [2, 2, 2]\<rparr>
   \<and> myBMScanMethod [97, 98, 97, 98, 97, 98, 97, 98] 8 [97, 98, 97] init_state =
     Inr (0, \<lparr>gsHint = 3, calls = []\<rparr>)
   \<and> myBMScanMethod (replicate 17 97) 17 (replicate 17 97) init_state =
     Inl (LaneOutOfBounds 16)"
proof -
  let ?b = "[97, 98, 97, 98, 97, 98, 97, 98] :: byte list"
  let ?p = "[97, 98, 97] :: byte list"
  let ?q = "replicate 17 97 :: byte list"
  have loops: "myBM_outer ?b ?p (strlen ?p) (scan_bound 8 (strlen ?p)) 0 myBM_frame0 =
     Inr \<lparr>tmpHint = [0, 0, 3, 0, 0, 0, 0, 0, 0, 0, 0, 0, 0, 0, 0, 0], lane_writes = [2, 2, 2]\<rparr>"
    by code_simp
  have run: "myBMScanMethod ?b 8 ?p init_state = Inr (0, \<lparr>gsHint = 3, calls = []\<rparr>)"
    by code_simp
  have occ: "match_offsets ?q ?q \<noteq> []"
    by code_simp
  have short: "\<forall>k\<in>set [2, 2, 2 :: nat]. k = strlen ?p - 1 \<and> k < 16"
    using myBMScanMethod_lane_index [of ?b ?p 8 init_state] loops by simp
  have pre: "16 < strlen ?q \<and> strlen ?q \<le> length ?q \<and> length ?q < 2 ^ 32
        \<and> 17 = length ?q \<and> match_offsets ?q ?q \<noteq> []"
    using occ by (simp add: strlen_def)
  have k: "strlen ?q - 1 = 16"
    by (simp add: strlen_def)
  from myBMScanMethod_lane_index [of ?q ?q 17 init_state] pre
  have "myBMScanMethod ?q 17 ?q init_state = Inl (LaneOutOfBounds (strlen ?q - 1))"
    by blast
  then have long: "myBMScanMethod ?q 17 ?q init_state = Inl (LaneOutOfBounds 16)"
    by (simp only: k)
  from loops run long show ?thesis by simp
qed

text \<open>
  C1, at a failing input: on a buffer of 256 bytes \<open>a\<close> and the pattern \<open>a\<close>,
  \<open>rookieScanMethod\<close> reports 256 hits, while the 8-bit lane of \<open>myBMScanMethod\<close>
  wraps to 0 and the hit counter stays at 0.
\<close>

theorem myBMScanMethod_lane_wraps:
  "rookieScanMethod (replicate 256 97) 256 [97] init_state =
     Inr (0, report_hits [97] [0..<256] init_state)
   \<and> sint (gsHint (report_hits [97] [0..<256] init_state)) = 256
   \<and> myBMScanMethod (replicate 256 97) 256 [97] init_state = Inr (0, init_state)"
proof -
  let ?b = "replicate 256 97 :: byte list"
  have "filter (occurs_at ?b [97]) [0..<256] = filter (\<lambda>k. True) [0..<256]"
    by (rule filter_cong) (simp_all add: occurs_at_single)
  then have offs: "match_offsets ?b [97] = [0..<256]"
    by (simp add: match_offsets_def)
  have r: "rookieScanMethod ?b 256 [97] init_state = Inr (0, report_hits [97] [0..<256] init_state)"
    using rookieScanMethod_eq [of "[97]" ?b 256 init_state]
    by (simp add: offs init_state_def)
  have c: "sint (gsHint (report_hits [97] [0..<256] init_state)) = 256"
    by (simp add: report_hits_def init_state_def)
  have m: "myBMScanMethod ?b 256 [97] init_state = Inr (0, init_state)"
    using myBMScanMethod_eq [of "[97]" ?b 256 init_state]
    by (simp add: offs init_state_def)
  from r c m show ?thesis by simp
qed

text \<open>
  C2, at a failing input: for a buffer of 1 byte and a pattern of 3 bytes the bound
  \<open>length - (plen - 1)\<close> wraps to \<open>2 ^ 64 - 1\<close>; both scans compare the first byte
  and then read \<open>inputData[1]\<close>, past the end of the buffer.
\<close>

theorem scan_bound_underflow:
  "scan_bound 1 3 = 2 ^ 64 - 1
   \<and> rookieScanMethod [97] 1 [97, 98, 99] init_state = Inl (OutOfBoundsRead 1)
   \<and> myBMScanMethod [97] 1 [97, 98, 99] init_state = Inl (OutOfBoundsRead 1)"
  by code_simp

text \<open>
  C9: \<open>eventHandler\<close> returns 0 and adds exactly one to \<open>gsHint\<close> whatever its
  arguments are. A scan that raises a list of matches through it is therefore never
  stopped early, delivers every match, and leaves a counter that depends only on the
  number of matches: two scans raising equally many matches end with equal counters.
\<close>

theorem eventHandler_counts_invocations:
  "fst (eventHandler ident from_off to_off flags ctx s) = 0
   \<and> gsHint (snd (eventHandler ident from_off to_off flags ctx s)) = gsHint s + 1
   \<and> fst (hs_scan_events ms ctx r s) = r
   \<and> gsHint (snd (hs_scan_events ms ctx r s)) = gsHint s + word_of_nat (length ms)
   \<and> length (calls (snd (hs_scan_events ms ctx r s))) = length (calls s) + length ms
   \<and> (length ms = length ms' \<longrightarrow>
        gsHint (snd (hs_scan_events ms ctx r s)) = gsHint (snd (hs_scan_events ms' ctx' r' s)))"
  by (simp add: hs_scan_events_eq) (simp add: eventHandler_def)

theorem eventHandler_counts_invocations_witness:
  "gsHint (snd (hs_scan_events [(0, 0, 5, 0), (0, 0, 9, 0)] [97] 0 init_state)) = 2
   \<and> gsHint (snd (hs_scan_events [(1, 3, 4, 0), (2, 6, 7, 1)] [98] 0 init_state)) = 2
   \<and> map ev_to (calls (snd (hs_scan_events [(0, 0, 5, 0), (0, 0, 9, 0)] [97] 0 init_state))) \<noteq>
       map ev_to (calls (snd (hs_scan_events [(1, 3, 4, 0), (2, 6, 7, 1)] [98] 0 init_state)))"
proof -
  have a: "gsHint (snd (hs_scan_events [(0, 0, 5, 0), (0, 0, 9, 0)] [97] 0 init_state)) = 2"
    by code_simp
  have "length [(0, 0, 5, 0), (0, 0, 9, 0) :: hs_match] = length [(1, 3, 4, 0), (2, 6, 7, 1) :: hs_match]"
    by simp
  with eventHandler_counts_invocations
    [of 0 0 0 0 "[97]" init_state "[(0, 0, 5, 0), (0, 0, 9, 0)]" 0
      "[(1, 3, 4, 0), (2, 6, 7, 1)]" "[98]" 0]
  have "gsHint (snd (hs_scan_events [(0, 0, 5, 0), (0, 0, 9, 0)] [97] 0 init_state)) =
        gsHint (snd (hs_scan_events [(1, 3, 4, 0), (2, 6, 7, 1)] [98] 0 init_state))"
    by blast
  moreover have "map ev_to (calls (snd (hs_scan_events [(0, 0, 5, 0), (0, 0, 9, 0)] [97] 0 init_state))) \<noteq>
       map ev_to (calls (snd (hs_scan_events [(1, 3, 4, 0), (2, 6, 7, 1)] [98] 0 init_state)))"
    by code_simp
  ultimately show ?thesis using a by simp
qed

section \<open>Properties of the harness\<close>

text \<open>
  C8: the loop of \<open>main\<close> sets \<open>gsHint\<close> to 0 before each strategy and reads it once
  after it. Whenever the loop returns, the report lines carry the names of the registry in
  its order, and the hit count of each line is the hit count of that strategy run alone
  from the initial state, whatever the earlier strategies left behind. For a pattern of 1
  to 16 bytes that is no longer than the buffer the loop does return. For the strategies
  that report through the callback, the hit count of such a run is the number of callback
  invocations of that run.
\<close>

theorem main_loop_isolates_hit_counts:
  "(\<forall>lines s'. main_loop (testFuncArr eng) ret inputData len pattern s = Inr (lines, s') \<longrightarrow>
       map rl_name lines =
         [''allMemScan'', ''hyperScan'', ''rookieScan'', ''myBMScanMethod'', ''myScan'']
       \<and> map (\<lambda>line. Some (rl_hit line)) lines =
           map (\<lambda>(testName, testFun). hit_count (testFun inputData len pattern init_state))
             (testFuncArr eng))
   \<and> (1 \<le> strlen pattern \<and> strlen pattern \<le> 16 \<and> strlen pattern \<le> length inputData
        \<and> length inputData < 2 ^ 32 \<and> len = length inputData \<longrightarrow>
        (\<exists>lines s'. main_loop (testFuncArr eng) ret inputData len pattern s = Inr (lines, s')))
   \<and> (\<forall>rc t. memScanMethod inputData len pattern init_state = Inr (rc, t) \<longrightarrow>
          gsHint t = word_of_nat (length (calls t)))
   \<and> (\<forall>rc t. hyperScanMethod eng inputData len pattern init_state = Inr (rc, t) \<longrightarrow>
          gsHint t = word_of_nat (length (calls t)))
   \<and> (\<forall>rc t. rookieScanMethod inputData len pattern init_state = Inr (rc, t) \<longrightarrow>
          gsHint t = word_of_nat (length (calls t)))"
proof -
  have a: "map rl_name lines =
         [''allMemScan'', ''hyperScan'', ''rookieScan'', ''myBMScanMethod'', ''myScan'']
       \<and> map (\<lambda>line. Some (rl_hit line)) lines =
           map (\<lambda>(testName, testFun). hit_count (testFun inputData len pattern init_state))
             (testFuncArr eng)"
    if "main_loop (testFuncArr eng) ret inputData len pattern s = Inr (lines, s')" for lines s'
    using main_loop_lines [OF testFuncArr_local that] by (simp add: testFuncArr_def)
  have b: "1 \<le> strlen pattern \<and> strlen pattern \<le> 16 \<and> strlen pattern \<le> length inputData
        \<and> length inputData < 2 ^ 32 \<and> len = length inputData \<longrightarrow>
        (\<exists>lines s'. main_loop (testFuncArr eng) ret inputData len pattern s = Inr (lines, s'))"
    using main_loop_returns [of pattern inputData len eng ret s] by (simp add: strlen_def)
  from a b memScanMethod_counts_calls hyperScanMethod_counts_calls rookieScanMethod_counts_calls
  show ?thesis by blast
qed

theorem main_loop_isolates_hit_counts_witness:
  "map rl_name (report_of (main_loop (testFuncArr (fixed_engine [(0, 0, 3, 0), (0, 0, 5, 0)])) 0
      [97, 98, 97, 98, 97, 98, 97, 98] 8 [97, 98, 97]
      \<lparr>gsHint = 77, calls = [hit_event [120] 9]\<rparr>)) =
     [''allMemScan'', ''hyperScan'', ''rookieScan'', ''myBMScanMethod'', ''myScan'']
   \<and> map rl_hit (report_of (main_loop (testFuncArr (fixed_engine [(0, 0, 3, 0), (0, 0, 5, 0)])) 0
      [97, 98, 97, 98, 97, 98, 97, 98] 8 [97, 98, 97]
      \<lparr>gsHint = 77, calls = [hit_event [120] 9]\<rparr>)) = [4, 2, 3, 3, 0]"
proof -
  let ?eng = "fixed_engine [(0, 0, 3, 0), (0, 0, 5, 0)]"
  let ?b = "[97, 98, 97, 98, 97, 98, 97, 98] :: byte list"
  let ?p = "[97, 98, 97] :: byte list"
  let ?s = "\<lparr>gsHint = 77, calls = [hit_event [120] 9]\<rparr>"
  have pre: "1 \<le> strlen ?p \<and> strlen ?p \<le> 16 \<and> strlen ?p \<le> length ?b
      \<and> length ?b < 2 ^ 32 \<and> 8 = length ?b"
    by (simp add: strlen_def)
  note t = main_loop_isolates_hit_counts [of ?eng 0 ?b 8 ?p ?s]
  from t pre obtain lines s' where
    run: "main_loop (testFuncArr ?eng) 0 ?b 8 ?p ?s = Inr (lines, s')"
    by blast
  with t have names: "map rl_name lines =
      [''allMemScan'', ''hyperScan'', ''rookieScan'', ''myBMScanMethod'', ''myScan'']"
    and hits: "map (\<lambda>line. Some (rl_hit line)) lines =
      map (\<lambda>(testName, testFun). hit_count (testFun ?b 8 ?p init_state)) (testFuncArr ?eng)"
    by blast+
  have alone: "map (\<lambda>(testName, testFun). hit_count (testFun ?b 8 ?p init_state))
      (testFuncArr ?eng) = [Some 4, Some 2, Some 3, Some 3, Some 0]"
    by code_simp
  have "map Some (map rl_hit lines) = map Some [4, 2, 3, 3, 0]"
    using hits alone by (simp add: comp_def)
  then have vals: "map rl_hit lines = [4, 2, 3, 3, 0]"
    by (simp only: inj_map_eq_map [OF inj_Some])
  from run names vals show ?thesis
    by (simp add: report_of_def)
qed

text \<open>
  C4, at a failing input: with an engine that rejects the pattern, \<open>hyperScanMethod\<close>
  returns \<open>-1\<close>, the remaining strategies still run and \<open>main\<close> exits with 0, but
  the report line of \<open>hyperScan\<close> says \<open>DONE\<close>: the value returned by the strategy
  is never stored in \<open>ret\<close>.
\<close>

theorem main_prints_DONE_for_failed_strategy:
  "hyperScanMethod rejecting_engine [97, 40, 98] 3 [40] init_state = Inr (- 1, init_state)
   \<and> main rejecting_engine [[103], [40], [102]]
       \<lparr>file_exists = True, file_readable = True, file_bytes = Some [97, 40, 98]\<rparr> =
     Inr (0,
       [\<lparr>rl_name = ''allMemScan'', rl_status = ''DONE'', rl_hit = 1\<rparr>,
        \<lparr>rl_name = ''hyperScan'', rl_status = ''DONE'', rl_hit = 0\<rparr>,
        \<lparr>rl_name = ''rookieScan'', rl_status = ''DONE'', rl_hit = 1\<rparr>,
        \<lparr>rl_name = ''myBMScanMethod'', rl_status = ''DONE'', rl_hit = 1\<rparr>,
        \<lparr>rl_name = ''myScan'', rl_status = ''DONE'', rl_hit = 0\<rparr>])"
  by code_simp

end
